theory Spec2Isabelle
  imports Complex_Main "HOL-Library.Multiset"
begin

section \<open>Shallow embedding of \<open>src/training_utils.py\<close>\<close>

text \<open>
  Numbers are modelled as mathematical reals: labels, predictions and pixel values are
  floating-point numbers in the program, and every constant the properties below depend
  on (\<open>0\<close>, \<open>1/4\<close>, \<open>1/2\<close>, \<open>3/4\<close>, \<open>1\<close>) is exactly representable.
  Exceptions of the Python run time are values of \<open>py_error\<close>.
\<close>

datatype py_error = IndexError | ValueError | UnboundLocalError

text \<open>A loop whose body may raise: the first exception ends it.\<close>

fun foldM :: "('s \<Rightarrow> 'a \<Rightarrow> py_error + 's) \<Rightarrow> 'a list \<Rightarrow> 's \<Rightarrow> py_error + 's" where
  "foldM f [] st = Inr st"
| "foldM f (x # xs) st = (case f st x of Inl e \<Rightarrow> Inl e | Inr st' \<Rightarrow> foldM f xs st')"

fun mapM :: "('a \<Rightarrow> py_error + 'b) \<Rightarrow> 'a list \<Rightarrow> py_error + 'b list" where
  "mapM f [] = Inr []"
| "mapM f (x # xs) =
     (case f x of
        Inl e \<Rightarrow> Inl e
      | Inr y \<Rightarrow> (case mapM f xs of Inl e \<Rightarrow> Inl e | Inr ys \<Rightarrow> Inr (y # ys)))"

subsection \<open>Arrays\<close>

text \<open>
  Indexing a one-dimensional array with an array of non-negative indices, \<open>xs[idx]\<close>:
  an index out of range raises IndexError.
\<close>

definition take_indices :: "'a list \<Rightarrow> nat list \<Rightarrow> py_error + 'a list" where
  "take_indices xs idx =
     (if list_all (\<lambda>i. i < length xs) idx then Inr (map (\<lambda>i. xs ! i) idx)
      else Inl IndexError)"


text \<open>
  A two-dimensional numpy array: its shape and its rows. The pixel type is a parameter,
  so that the same record serves for the \<open>(h, w, 1)\<close> arrays produced by
  \<open>img.reshape((img.shape[0], img.shape[1], 1))\<close>, whose pixels are one-element
  channel vectors.
\<close>

record 'a ndarray2 =
  nrows :: nat
  ncols :: nat
  elems :: "'a list list"

definition pixels :: "'a ndarray2 \<Rightarrow> 'a set" where
  "pixels a = \<Union> (set ` set (elems a))"

text \<open>
  \<open>np.roll\<close> along one axis, as numpy computes it: \<open>offset = shift % (n or 1)\<close>, and when
  the offset is not zero \<open>result[offset:] = a[:-offset]\<close>, \<open>result[:offset] = a[-offset:]\<close>.
\<close>

definition roll_axis :: "int \<Rightarrow> 'a list \<Rightarrow> 'a list" where
  "roll_axis shift xs =
     (let n = length xs;
          offset = nat (shift mod int (if n = 0 then 1 else n))
      in if offset = 0 then xs else drop (n - offset) xs @ take (n - offset) xs)"

text \<open>\<open>np.roll(img, (s0, s1), axis=(0, 1))\<close>: rows are rolled by \<open>s0\<close>, columns by \<open>s1\<close>.\<close>

definition np_roll :: "int \<times> int \<Rightarrow> 'a ndarray2 \<Rightarrow> 'a ndarray2" where
  "np_roll shifts a =
     a\<lparr>elems := map (roll_axis (snd shifts)) (roll_axis (fst shifts) (elems a))\<rparr>"

subsection \<open>\<open>extract_floats\<close>\<close>

text \<open>
  \<open>re.findall(r"[-+]?\d*\.\d+|\d+", string)\<close>. Strings are lists of 8-bit characters;
  among them \<open>\d\<close> matches the ten ASCII digits only.

  The pattern is a value of \<open>rx\<close>; repetition is needed for character classes only.
  \<open>ends r s\<close> lists, in the order in which a backtracking matcher tries them, the
  remainders of \<open>s\<close> after every way of matching \<open>r\<close> at the start of \<open>s\<close>: greedy
  repetition tries the longest run first, an optional part is tried before it is skipped,
  the left alternative before the right one. The match the matcher reports is the first
  one.
\<close>

definition is_digit :: "char \<Rightarrow> bool" where
  "is_digit c \<longleftrightarrow> c \<in> set ''0123456789''"

datatype cls = Digit | OneOf string

fun in_cls :: "cls \<Rightarrow> char \<Rightarrow> bool" where
  "in_cls Digit c = is_digit c"
| "in_cls (OneOf cs) c = (c \<in> set cs)"

datatype rx = One cls | Many cls | Many1 cls | Opt rx | Seq rx rx | Alt rx rx

fun many :: "cls \<Rightarrow> string \<Rightarrow> string list" where
  "many c [] = [[]]"
| "many c (x # s) = (if in_cls c x then many c s @ [x # s] else [x # s])"

fun ends :: "rx \<Rightarrow> string \<Rightarrow> string list" where
  "ends (One c) s = (case s of [] \<Rightarrow> [] | x # t \<Rightarrow> if in_cls c x then [t] else [])"
| "ends (Many c) s = many c s"
| "ends (Many1 c) s = (case s of [] \<Rightarrow> [] | x # t \<Rightarrow> if in_cls c x then many c t else [])"
| "ends (Opt r) s = ends r s @ [s]"
| "ends (Seq r1 r2) s = concat (map (ends r2) (ends r1 s))"
| "ends (Alt r1 r2) s = ends r1 s @ ends r2 s"

text \<open>
  \<open>findall\<close> scans from the left: where the pattern matches, the matched text is emitted
  and the scan goes on behind it; where it does not, the scan moves on by one character.
  An empty match is emitted and the scan moves on by one character; the float pattern
  has no empty match (\<open>ends_float_rx_match\<close> below), so that branch is not taken by
  \<open>extract_floats\<close>.
\<close>

function findall :: "rx \<Rightarrow> string \<Rightarrow> string list" where
  "findall r s =
     (case ends r s of
        t # _ \<Rightarrow>
          if length t < length s then take (length s - length t) s # findall r t
          else [] # (case s of [] \<Rightarrow> [] | _ # s' \<Rightarrow> findall r s')
      | [] \<Rightarrow> (case s of [] \<Rightarrow> [] | _ # s' \<Rightarrow> findall r s'))"
  by pat_completeness auto
termination
  by (relation "measure (\<lambda>(r, s). length s)") auto

declare findall.simps [simp del]

text \<open>\<open>\d*\.\d+\<close>, the part of the left alternative behind the optional sign.\<close>

definition frac_rx :: rx where
  "frac_rx = Seq (Many Digit) (Seq (One (OneOf ''.'')) (Many1 Digit))"

definition float_rx :: rx where
  "float_rx = Alt (Seq (Opt (One (OneOf ''-+''))) frac_rx) (Many1 Digit)"

definition extract_floats :: "string \<Rightarrow> string list" where
  "extract_floats string = findall float_rx string"

text \<open>The words a pattern denotes: the float grammar is \<open>lang float_rx\<close>.\<close>

fun lang :: "rx \<Rightarrow> string set" where
  "lang (One c) = {[x] | x. in_cls c x}"
| "lang (Many c) = {w. \<forall>x \<in> set w. in_cls c x}"
| "lang (Many1 c) = {w. w \<noteq> [] \<and> (\<forall>x \<in> set w. in_cls c x)}"
| "lang (Opt r) = insert [] (lang r)"
| "lang (Seq r1 r2) = {u @ v | u v. u \<in> lang r1 \<and> v \<in> lang r2}"
| "lang (Alt r1 r2) = lang r1 \<union> lang r2"

text \<open>Whether some character class of the pattern accepts a character.\<close>

fun rx_accepts :: "rx \<Rightarrow> char \<Rightarrow> bool" where
  "rx_accepts (One c) x = in_cls c x"
| "rx_accepts (Many c) x = in_cls c x"
| "rx_accepts (Many1 c) x = in_cls c x"
| "rx_accepts (Opt r) x = rx_accepts r x"
| "rx_accepts (Seq r1 r2) x = (rx_accepts r1 x \<or> rx_accepts r2 x)"
| "rx_accepts (Alt r1 r2) x = (rx_accepts r1 x \<or> rx_accepts r2 x)"

subsection \<open>\<open>data_load\<close>\<close>

text \<open>
  What \<open>data_load\<close> takes from outside the program: the file system (\<open>glob.glob\<close>, and
  \<open>h5py.File\<close> as the keys of a file with their two-dimensional datasets, in the order of
  \<open>fin.keys()\<close>), the formatting of a float by \<open>:.3f\<close> and by default, \<open>float\<close> on a
  string, and the random generator: the \<open>k\<close>-th array drawn by
  \<open>np.random.randint(1, 5, size=(128, 128))\<close> and \<open>np.random.permutation\<close>.
\<close>

record env =
  fs_glob :: "string \<Rightarrow> string list"
  h5_read :: "string \<Rightarrow> (string \<times> real ndarray2) list"
  format_3f :: "real \<Rightarrow> string"
  format_str :: "real \<Rightarrow> string"
  py_float :: "string \<Rightarrow> real"
  np_randint :: "nat \<Rightarrow> int list list"
  np_permutation :: "nat list \<Rightarrow> nat list"

text \<open>\<open>f"no_roll_data/dataset_tumble_{alp:.3f}_{val}.h5"\<close>\<close>

definition dataset_pattern :: "env \<Rightarrow> real \<Rightarrow> real \<Rightarrow> string" where
  "dataset_pattern env alp val =
     ''no_roll_data/dataset_tumble_'' @ format_3f env alp @ ''_'' @ format_str env val @ ''.h5''"

text \<open>The list \<open>files\<close> after the two nested loops over \<open>alphas\<close> and \<open>densities\<close>.\<close>

definition matched_files :: "env \<Rightarrow> real list \<Rightarrow> real list \<Rightarrow> string list" where
  "matched_files env alphas densities =
     concat (map (\<lambda>alp. concat (map (\<lambda>val. fs_glob env (dataset_pattern env alp val))
                                      densities)) alphas)"

definition map_pixels :: "('a \<Rightarrow> 'b) \<Rightarrow> 'a ndarray2 \<Rightarrow> 'b ndarray2" where
  "map_pixels f a = \<lparr>nrows = nrows a, ncols = ncols a, elems = map (map f) (elems a)\<rparr>"

text \<open>\<open>img[img > 0] = 1\<close>\<close>

definition binarize :: "real ndarray2 \<Rightarrow> real ndarray2" where
  "binarize img = map_pixels (\<lambda>v. if v > 0 then 1 else v) img"

text \<open>
  Broadcasting an array to the shape \<open>(h, w)\<close> of the other operand, whose dimensions are
  not \<open>1\<close>: a dimension must be equal to the other one or be \<open>1\<close>, and a dimension \<open>1\<close> is
  repeated; otherwise the operation raises ValueError.
\<close>

definition broadcast_to :: "nat \<times> nat \<Rightarrow> 'a ndarray2 \<Rightarrow> py_error + 'a ndarray2" where
  "broadcast_to shp a =
     (let h = fst shp; w = snd shp in
      if (nrows a = h \<or> nrows a = 1) \<and> (ncols a = w \<or> ncols a = 1) then
        let rows = map (\<lambda>r. if ncols a = 1 then replicate w (hd r) else r) (elems a)
        in Inr \<lparr>nrows = h, ncols = w,
                elems = (if nrows a = 1 then replicate h (hd rows) else rows)\<rparr>
      else Inl ValueError)"

text \<open>\<open>img * np.random.randint(1, 5, size=(128, 128)) / 4\<close>, for the array drawn.\<close>

definition scramble :: "real ndarray2 \<Rightarrow> int list list \<Rightarrow> py_error + real ndarray2" where
  "scramble img noise =
     (case broadcast_to (128, 128) img of
        Inl e \<Rightarrow> Inl e
      | Inr b \<Rightarrow> Inr (b\<lparr>elems := map2 (map2 (\<lambda>v r. v * real_of_int r / 4)) (elems b) noise\<rparr>))"

text \<open>
  Lines 49 to 54: the image after the transformation chosen by \<open>orientation\<close> and
  \<open>scrambled\<close>, with the number of random arrays drawn so far.
\<close>

definition preprocess ::
  "env \<Rightarrow> bool \<Rightarrow> bool \<Rightarrow> nat \<Rightarrow> real ndarray2 \<Rightarrow> py_error + real ndarray2 \<times> nat" where
  "preprocess env orientation scrambled k img =
     (if \<not> orientation then
        (let img1 = binarize img in
         if scrambled then
           (case scramble img1 (np_randint env k) of
              Inl e \<Rightarrow> Inl e
            | Inr img2 \<Rightarrow> Inr (img2, Suc k))
         else Inr (img1, k))
      else Inr (map_pixels (\<lambda>v. v / 4) img, k))"

text \<open>\<open>img.reshape((img.shape[0], img.shape[1], 1))\<close>: every pixel becomes a channel vector.\<close>

definition add_channel :: "'a ndarray2 \<Rightarrow> 'a list ndarray2" where
  "add_channel img = map_pixels (\<lambda>v. [v]) img"

text \<open>The local variables of \<open>data_load\<close>; \<open>shape\<close> is \<open>None\<close> while it is not assigned.\<close>

record load_state =
  inputs :: "real list ndarray2 list"
  outputs :: "real list"
  shape :: "(nat \<times> nat \<times> nat) option"
  draws :: nat

text \<open>The body of the loop over the keys of one file (the counter \<open>count\<close> is never read).\<close>

definition load_image ::
  "env \<Rightarrow> bool \<Rightarrow> bool \<Rightarrow> real \<Rightarrow> load_state \<Rightarrow> real ndarray2 \<Rightarrow> py_error + load_state" where
  "load_image env orientation scrambled tumble st raw =
     (case preprocess env orientation scrambled (draws st) raw of
        Inl e \<Rightarrow> Inl e
      | Inr (img2, k) \<Rightarrow>
          let img = add_channel img2 in
          Inr \<lparr>inputs = inputs st @ [img, np_roll (42, 42) img, np_roll (120, 120) img],
               outputs = outputs st @ [tumble, tumble, tumble],
               shape = Some (nrows img, ncols img, 1),
               draws = k\<rparr>)"

text \<open>
  The body of the loop over \<open>files\<close>: \<open>extract_floats(f)[0]\<close> raises IndexError when the path
  has no match.
\<close>

definition load_file ::
  "env \<Rightarrow> bool \<Rightarrow> bool \<Rightarrow> load_state \<Rightarrow> string \<Rightarrow> py_error + load_state" where
  "load_file env orientation scrambled st f =
     (case extract_floats f of
        [] \<Rightarrow> Inl IndexError
      | t # _ \<Rightarrow>
          foldM (load_image env orientation scrambled (py_float env t))
                (map snd (h5_read env f)) st)"

text \<open>
  \<open>np.array\<close> of a list of arrays: arrays of different shapes raise ValueError (numpy 1.24
  and later).
\<close>

definition np_array :: "'a ndarray2 list \<Rightarrow> py_error + 'a ndarray2 list" where
  "np_array imgs =
     (case imgs of
        [] \<Rightarrow> Inr []
      | a # _ \<Rightarrow>
          if list_all (\<lambda>b. nrows b = nrows a \<and> ncols b = ncols a) imgs then Inr imgs
          else Inl ValueError)"

text \<open>
  The return statement evaluates \<open>np.array(inputs)[order]\<close>, \<open>np.array(outputs)[order]\<close> and
  \<open>shape\<close> in this order; reading \<open>shape\<close> before any assignment raises UnboundLocalError.
\<close>

definition data_load ::
  "env \<Rightarrow> real list \<Rightarrow> real list \<Rightarrow> bool \<Rightarrow> bool \<Rightarrow>
     py_error + real list ndarray2 list \<times> real list \<times> (nat \<times> nat \<times> nat)" where
  "data_load env alphas densities orientation scrambled =
     (let files = matched_files env alphas densities in
      case foldM (load_file env orientation scrambled) files
             \<lparr>inputs = [], outputs = [], shape = None, draws = 0\<rparr> of
        Inl e \<Rightarrow> Inl e
      | Inr st \<Rightarrow>
          let order = np_permutation env [0..<length (outputs st)] in
          (case np_array (inputs st) of
             Inl e \<Rightarrow> Inl e
           | Inr arr \<Rightarrow>
               (case take_indices arr order of
                  Inl e \<Rightarrow> Inl e
                | Inr xs \<Rightarrow>
                    (case take_indices (outputs st) order of
                       Inl e \<Rightarrow> Inl e
                     | Inr ys \<Rightarrow>
                         (case shape st of
                            None \<Rightarrow> Inl UnboundLocalError
                          | Some shp \<Rightarrow> Inr (xs, ys, shp))))))"

text \<open>The samples one preprocessed image contributes, and the label of a file.\<close>

definition triplet :: "'a ndarray2 \<Rightarrow> 'a ndarray2 list" where
  "triplet img = [img, np_roll (42, 42) img, np_roll (120, 120) img]"

definition file_label :: "env \<Rightarrow> string \<Rightarrow> real" where
  "file_label env f = py_float env (hd (extract_floats f))"

definition image_count :: "env \<Rightarrow> string list \<Rightarrow> nat" where
  "image_count env files = sum_list (map (\<lambda>f. length (h5_read env f)) files)"

text \<open>
  The labelled samples in loading order, given for every file the list of its images after
  preprocessing and reshaping: each image gives its triplet, each member with the label
  of the file.
\<close>

definition labelled_triplets ::
  "env \<Rightarrow> string list \<Rightarrow> 'a ndarray2 list list \<Rightarrow> ('a ndarray2 \<times> real) list" where
  "labelled_triplets env files imgss =
     concat (map2 (\<lambda>f imgs. concat (map (\<lambda>img. map (\<lambda>a. (a, file_label env f)) (triplet img)) imgs))
                  files imgss)"

text \<open>
  A small file system for the examples: one file with two images of shape \<open>(1, 4)\<close>.
\<close>

definition example_env :: env where
  "example_env =
     \<lparr>fs_glob = (\<lambda>p. if p = ''no_roll_data/dataset_tumble_0.016_0.1.h5'' then [p] else []),
      h5_read = (\<lambda>f. [(''conf_0'', \<lparr>nrows = 1, ncols = 4, elems = [[0, 3, 4, 1]]\<rparr>),
                       (''conf_1'', \<lparr>nrows = 1, ncols = 4, elems = [[2, 0, 0, 1]]\<rparr>)]),
      format_3f = (\<lambda>x. ''0.016''),
      format_str = (\<lambda>x. ''0.1''),
      py_float = (\<lambda>s. if s = ''0.016'' then 2 / 125 else 0),
      np_randint = (\<lambda>k. replicate 128 (replicate 128 1)),
      np_permutation = rev\<rparr>"

subsection \<open>\<open>split_dataset\<close>\<close>

text \<open>
  Python's adjustment of a slice bound to a sequence of length \<open>n\<close>: a negative bound
  counts from the end, and the result is clamped to \<open>0 .. n\<close>.
\<close>

definition adjust_index :: "nat \<Rightarrow> int \<Rightarrow> nat" where
  "adjust_index n i =
     (if i < 0 then (if i + int n < 0 then 0 else nat (i + int n))
      else if int n \<le> i then n else nat i)"

definition slice_upto :: "'a list \<Rightarrow> int \<Rightarrow> 'a list" where
  "slice_upto xs stop = take (adjust_index (length xs) stop) xs"

definition slice_from :: "'a list \<Rightarrow> int \<Rightarrow> 'a list" where
  "slice_from xs start = drop (adjust_index (length xs) start) xs"

text \<open>
  \<open>x_train, y_train = x[:-last], y[:-last]\<close> and \<open>x_val, y_val = x[-last:], y[-last:]\<close>.
  The function also prints sizes; printing is left out.
\<close>

definition split_dataset ::
  "'a list \<Rightarrow> 'b list \<Rightarrow> int \<Rightarrow> 'a list \<times> 'b list \<times> 'a list \<times> 'b list" where
  "split_dataset x y lastn =
     (let x_train = slice_upto x (- lastn); y_train = slice_upto y (- lastn);
          x_val = slice_from x (- lastn); y_val = slice_from y (- lastn)
      in (x_train, y_train, x_val, y_val))"

subsection \<open>\<open>plot_violin_and_statistics\<close>\<close>

text \<open>
  The loop of \<open>plot_violin_and_statistics\<close> that computes the overlap indicators. The
  table and the violin plot built before the loop, the standard deviations and the
  printed summary are left out.
\<close>

text \<open>\<open>np.unique\<close>: the distinct values in increasing order.\<close>

definition np_unique :: "real list \<Rightarrow> real list" where
  "np_unique xs = sort (remdups xs)"

text \<open>\<open>np.min\<close> and \<open>np.max\<close> raise ValueError on an empty array.\<close>

fun np_min :: "real list \<Rightarrow> py_error + real" where
  "np_min [] = Inl ValueError"
| "np_min (x # xs) = Inr (fold min xs x)"

fun np_max :: "real list \<Rightarrow> py_error + real" where
  "np_max [] = Inl ValueError"
| "np_max (x # xs) = Inr (fold max xs x)"

text \<open>\<open>np.where(actual == val)\<close>: the indices at which \<open>actual\<close> is \<open>val\<close>.\<close>

definition np_where_eq :: "real list \<Rightarrow> real \<Rightarrow> nat list" where
  "np_where_eq actual val = filter (\<lambda>i. actual ! i = val) [0..<length actual]"

definition accuracy :: real where
  "accuracy = 1 / 1000"

text \<open>One pass of the loop body, for the label value \<open>val\<close>.\<close>

definition overlap_of :: "real list \<Rightarrow> real list \<Rightarrow> real \<Rightarrow> py_error + bool" where
  "overlap_of predictions actual val =
     (case take_indices predictions (np_where_eq actual val) of
        Inl e \<Rightarrow> Inl e
      | Inr predictions_mapped \<Rightarrow>
          (case np_min predictions_mapped of
             Inl e \<Rightarrow> Inl e
           | Inr lo \<Rightarrow>
               (case np_max predictions_mapped of
                  Inl e \<Rightarrow> Inl e
                | Inr hi \<Rightarrow> Inr (val + accuracy \<ge> lo \<and> val - accuracy \<le> hi))))"

text \<open>The list \<open>overlap\<close> after the loop \<open>for val in np.unique(actual)\<close>.\<close>

definition overlap_list :: "real list \<Rightarrow> real list \<Rightarrow> py_error + bool list" where
  "overlap_list predictions actual = mapM (overlap_of predictions actual) (np_unique actual)"

subsection \<open>\<open>get_huber_loss\<close>\<close>

text \<open>
  The tensor operations of \<open>get_huber_loss\<close> act elementwise; the model is the function on
  one element.
\<close>

definition squared_loss :: "real \<Rightarrow> real" where
  "squared_loss error = 0.5 * error\<^sup>2"

definition linear_loss :: "real \<Rightarrow> real \<Rightarrow> real" where
  "linear_loss error clip_delta = clip_delta * (\<bar>error\<bar> - 0.5 * clip_delta)"

definition get_huber_loss :: "real \<Rightarrow> real \<Rightarrow> real \<Rightarrow> real" where
  "get_huber_loss y_true y_pred clip_delta =
     (let error = y_true - y_pred;
          cond = \<bar>error\<bar> < clip_delta
      in if cond then squared_loss error else linear_loss error clip_delta)"

section \<open>Properties\<close>

subsection \<open>Cyclic shifts\<close>

lemma roll_axis_rotate:
  "roll_axis shift xs = rotate (length xs - nat (shift mod int (length xs))) xs"
proof (cases "xs = []")
  case True
  then show ?thesis by (simp add: roll_axis_def)
next
  case False
  define n where "n = length xs"
  define k where "k = nat (shift mod int n)"
  have n: "0 < n" using False by (simp add: n_def)
  have k: "k < n" using n by (simp add: k_def nat_less_iff)
  have unfolded: "roll_axis shift xs = (if k = 0 then xs else drop (n - k) xs @ take (n - k) xs)"
    using n unfolding roll_axis_def Let_def n_def k_def by simp
  have goal: "rotate (length xs - nat (shift mod int (length xs))) xs = rotate (n - k) xs"
    unfolding n_def k_def by simp
  show ?thesis
  proof (cases "k = 0")
    case True
    have "rotate n xs = xs" unfolding n_def by (simp add: rotate_id)
    then show ?thesis using True unfolded goal by simp
  next
    case False
    have "(n - k) mod n = n - k" using k False by simp
    then have "rotate (n - k) xs = drop (n - k) xs @ take (n - k) xs"
      unfolding n_def by (simp add: rotate_drop_take)
    then show ?thesis using False unfolded goal by simp
  qed
qed

lemma length_roll_axis [simp]: "length (roll_axis shift xs) = length xs"
  by (simp add: roll_axis_rotate)

lemma set_roll_axis [simp]: "set (roll_axis shift xs) = set xs"
  by (simp add: roll_axis_rotate)

lemma roll_axis_map: "roll_axis shift (map f xs) = map f (roll_axis shift xs)"
  by (simp add: roll_axis_rotate rotate_map)

lemma roll_axis_inverse: "roll_axis (- shift) (roll_axis shift xs) = xs"
proof (cases "xs = []")
  case True
  then show ?thesis by (simp add: roll_axis_def)
next
  case False
  define n where "n = length xs"
  have n: "0 < n" using False by (simp add: n_def)
  define a where "a = nat (shift mod int n)"
  define b where "b = nat ((- shift) mod int n)"
  have a: "a < n" and b: "b < n" using n by (simp_all add: a_def b_def nat_less_iff)
  have "(shift mod int n + (- shift) mod int n) mod int n = 0"
    by (simp add: mod_add_eq)
  moreover have "int a = shift mod int n" "int b = (- shift) mod int n"
    using n by (simp_all add: a_def b_def)
  ultimately have "(int a + int b) mod int n = 0" by simp
  then have "int ((a + b) mod n) = 0" by (simp add: zmod_int)
  then have "n dvd a + b" by (simp add: dvd_eq_mod_eq_0)
  moreover have "(n - b) + (n - a) + (a + b) = 2 * n" using a b by simp
  ultimately have "n dvd (n - b) + (n - a)"
    by (metis dvd_add_left_iff dvd_triv_right)
  then have "((n - b) + (n - a)) mod length xs = 0"
    unfolding n_def by (simp add: mod_eq_0_iff_dvd)
  then have "rotate ((n - b) + (n - a)) xs = xs"
    by (rule rotate_id)
  then have "rotate (n - b) (rotate (n - a) xs) = xs"
    by (simp add: rotate_rotate)
  moreover have "roll_axis shift xs = rotate (n - a) xs"
    unfolding roll_axis_rotate n_def a_def by simp
  moreover have "roll_axis (- shift) (rotate (n - a) xs) = rotate (n - b) (rotate (n - a) xs)"
    unfolding roll_axis_rotate n_def b_def by simp
  ultimately show ?thesis by simp
qed

lemma map_roll_axis_inverse:
  "map (roll_axis (- shift)) (map (roll_axis shift) rows) = rows"
  by (induction rows) (simp_all add: roll_axis_inverse)

lemma np_roll_inverse: "np_roll (- s0, - s1) (np_roll (s0, s1) a) = a"
  by (simp add: np_roll_def roll_axis_map roll_axis_inverse map_roll_axis_inverse
      del: map_map)

lemma pixels_np_roll [simp]: "pixels (np_roll shifts a) = pixels a"
  by (simp add: pixels_def np_roll_def)

text \<open>
  C4. For every two-dimensional image, the cyclic shift by \<open>(42, 42)\<close> followed by the
  shift by \<open>(-42, -42)\<close> gives back the image, and so does the opposite order: the shift of
  the augmentation step is a bijection, with the opposite shift as its inverse.
\<close>

theorem roll_42_then_back:
  "np_roll (- 42, - 42) (np_roll (42, 42) a) = a \<and>
   np_roll (42, 42) (np_roll (- 42, - 42) a) = a"
proof
  show "np_roll (- 42, - 42) (np_roll (42, 42) a) = a"
    using np_roll_inverse [of 42 42 a] by simp
  show "np_roll (42, 42) (np_roll (- 42, - 42) a) = a"
    using np_roll_inverse [of "- 42" "- 42" a] by simp
qed

subsection \<open>Float extraction\<close>

lemma many_nonempty: "many c s \<noteq> []"
  by (induction s) simp_all

lemma many_hd: "hd (many c s) = dropWhile (in_cls c) s"
  by (induction s) (simp_all add: many_nonempty)

lemma many_sound:
  "t \<in> set (many c s) \<Longrightarrow> \<exists>m. s = m @ t \<and> (\<forall>x \<in> set m. in_cls c x)"
proof (induction s)
  case Nil
  then show ?case by simp
next
  case (Cons a s)
  show ?case
  proof (cases "t = a # s")
    case True
    then show ?thesis by simp
  next
    case False
    with Cons.prems have a: "in_cls c a" and "t \<in> set (many c s)"
      by (auto split: if_splits)
    with Cons.IH obtain m where "s = m @ t" "\<forall>x \<in> set m. in_cls c x" by blast
    with a have "a # s = (a # m) @ t \<and> (\<forall>x \<in> set (a # m). in_cls c x)" by simp
    then show ?thesis by blast
  qed
qed

lemma ends_sound:
  "t \<in> set (ends r s) \<Longrightarrow> \<exists>m. s = m @ t \<and> m \<in> lang r"
proof (induction r arbitrary: s t)
  case (One c)
  then show ?case by (auto split: list.splits if_splits)
next
  case (Many c)
  then show ?case using many_sound [of t c s] by auto
next
  case (Many1 c)
  then obtain x u where s: "s = x # u" and x: "in_cls c x" and t: "t \<in> set (many c u)"
    by (auto split: list.splits if_splits)
  from many_sound [OF t] obtain m where "u = m @ t" "\<forall>x \<in> set m. in_cls c x" by blast
  with s x have "s = (x # m) @ t \<and> x # m \<in> lang (Many1 c)" by simp
  then show ?case by blast
next
  case (Opt r)
  then show ?case by fastforce
next
  case (Seq r1 r2)
  from Seq.prems obtain u where u: "u \<in> set (ends r1 s)" and t: "t \<in> set (ends r2 u)"
    by auto
  from Seq.IH(1) [OF u] obtain m1 where m1: "s = m1 @ u" "m1 \<in> lang r1" by blast
  from Seq.IH(2) [OF t] obtain m2 where m2: "u = m2 @ t" "m2 \<in> lang r2" by blast
  have "s = (m1 @ m2) @ t \<and> m1 @ m2 \<in> lang (Seq r1 r2)"
    using m1 m2 by auto
  then show ?case by blast
next
  case (Alt r1 r2)
  then show ?case by fastforce
qed

lemma lang_float_rx:
  "m \<in> lang float_rx \<longleftrightarrow>
     (\<exists>sg ds fs. m = sg @ ds @ ''.'' @ fs \<and> sg \<in> {[], ''-'', ''+''} \<and>
        (\<forall>x \<in> set ds. is_digit x) \<and> fs \<noteq> [] \<and> (\<forall>x \<in> set fs. is_digit x)) \<or>
     (m \<noteq> [] \<and> (\<forall>x \<in> set m. is_digit x))"
  (is "?L \<longleftrightarrow> ?A \<or> ?B")
proof
  assume ?L
  then consider
    (frac) sg ds fs where "sg \<in> lang (Opt (One (OneOf ''-+'')))" "ds \<in> lang (Many Digit)"
      "fs \<in> lang (Many1 Digit)" "m = sg @ ds @ ''.'' @ fs"
    | (int) "m \<in> lang (Many1 Digit)"
    unfolding float_rx_def frac_rx_def by auto
  then show "?A \<or> ?B"
  proof cases
    case frac
    from frac(1) have "sg \<in> {[], ''-'', ''+''}" by auto
    with frac(2-4) have ?A by auto
    then show ?thesis ..
  next
    case int
    then show ?thesis by simp
  qed
next
  assume "?A \<or> ?B"
  then show ?L
  proof
    assume ?A
    then obtain sg ds fs where *: "m = sg @ ds @ ''.'' @ fs" "sg \<in> {[], ''-'', ''+''}"
      "\<forall>x \<in> set ds. is_digit x" "fs \<noteq> []" "\<forall>x \<in> set fs. is_digit x" by blast
    have 1: "sg \<in> lang (Opt (One (OneOf ''-+'')))" using *(2) by auto
    have 2: "ds \<in> lang (Many Digit)" using *(3) by simp
    have 3: "''.'' @ fs \<in> lang (Seq (One (OneOf ''.'')) (Many1 Digit))"
      using *(4,5) by simp
    have "ds @ ''.'' @ fs \<in> lang (Seq (Many Digit) (Seq (One (OneOf ''.'')) (Many1 Digit)))"
      using 2 3 unfolding lang.simps(5) [of "Many Digit"] by blast
    with 1 have "sg @ ds @ ''.'' @ fs \<in> lang (Seq (Opt (One (OneOf ''-+'')))
        (Seq (Many Digit) (Seq (One (OneOf ''.'')) (Many1 Digit))))"
      unfolding lang.simps(5) [of "Opt (One (OneOf ''-+''))"] by blast
    then show ?L using *(1) by (simp add: float_rx_def frac_rx_def)
  next
    assume ?B
    then show ?L by (simp add: float_rx_def frac_rx_def)
  qed
qed

lemma float_rx_has_digit:
  assumes "m \<in> lang float_rx"
  shows "\<exists>x \<in> set m. is_digit x"
proof -
  from assms [unfolded lang_float_rx] show ?thesis
  proof
    assume "\<exists>sg ds fs. m = sg @ ds @ ''.'' @ fs \<and> sg \<in> {[], ''-'', ''+''} \<and>
        (\<forall>x \<in> set ds. is_digit x) \<and> fs \<noteq> [] \<and> (\<forall>x \<in> set fs. is_digit x)"
    then obtain sg ds fs where "m = sg @ ds @ ''.'' @ fs" "fs \<noteq> []"
      "\<forall>x \<in> set fs. is_digit x" by blast
    then have "hd fs \<in> set m" "is_digit (hd fs)" by simp_all
    then show ?thesis by blast
  next
    assume "m \<noteq> [] \<and> (\<forall>x \<in> set m. is_digit x)"
    then have "hd m \<in> set m" "is_digit (hd m)" by simp_all
    then show ?thesis by blast
  qed
qed

lemma ends_float_rx_match:
  assumes "t \<in> set (ends float_rx s)"
  shows "length t < length s \<and> take (length s - length t) s \<in> lang float_rx \<and>
         s = take (length s - length t) s @ t"
proof -
  from ends_sound [OF assms] obtain m where m: "s = m @ t" "m \<in> lang float_rx" by blast
  from float_rx_has_digit [OF m(2)] have "m \<noteq> []" by auto
  with m show ?thesis by simp
qed

lemma ends_float_rx_digit: "is_digit x \<Longrightarrow> ends float_rx (x # s) \<noteq> []"
  by (simp add: float_rx_def frac_rx_def many_nonempty)

lemma findall_nil: "findall float_rx [] = []"
  by (subst findall.simps) (simp add: float_rx_def frac_rx_def)

lemma findall_skip:
  "ends float_rx (x # s) = [] \<Longrightarrow> findall float_rx (x # s) = findall float_rx s"
  by (subst findall.simps) simp

lemma findall_match:
  assumes "ends float_rx s = t # ts"
  shows "findall float_rx s = take (length s - length t) s # findall float_rx t"
proof -
  have "length t < length s" using ends_float_rx_match [of t s] assms by simp
  with assms show ?thesis by (subst findall.simps) simp
qed

lemma findall_tokens:
  "m \<in> set (findall float_rx s) \<Longrightarrow> m \<in> lang float_rx"
proof (induction s arbitrary: m rule: length_induct)
  case (1 s)
  show ?case
  proof (cases "ends float_rx s")
    case Nil
    show ?thesis
    proof (cases s)
      case Nil
      with "1.prems" show ?thesis by (simp add: findall_nil)
    next
      case (Cons x s')
      with Nil "1.prems" have "m \<in> set (findall float_rx s')"
        by (simp add: findall_skip)
      moreover have "length s' < length s" using Cons by simp
      ultimately show ?thesis using "1.IH" by blast
    qed
  next
    case (Cons t ts)
    then have t: "length t < length s" "take (length s - length t) s \<in> lang float_rx"
      using ends_float_rx_match [of t s] by simp_all
    from "1.prems" have "m = take (length s - length t) s \<or> m \<in> set (findall float_rx t)"
      by (simp add: findall_match [OF Cons])
    with t "1.IH" show ?thesis by blast
  qed
qed

lemma findall_gaps:
  "\<exists>gs. length gs = Suc (length (findall float_rx s)) \<and>
        concat (splice gs (findall float_rx s)) = s \<and>
        (\<forall>g \<in> set gs. \<forall>x \<in> set g. \<not> is_digit x)"
proof (induction s rule: length_induct)
  case (1 s)
  show ?case
  proof (cases "ends float_rx s")
    case Nil
    show ?thesis
    proof (cases s)
      case Nil
      then show ?thesis by (intro exI [of _ "[[]]"]) (simp add: findall_nil)
    next
      case (Cons x s')
      have e: "ends float_rx (x # s') = []" using Nil Cons by simp
      have x: "\<not> is_digit x" using ends_float_rx_digit [of x s'] e by auto
      have f: "findall float_rx s = findall float_rx s'"
        unfolding Cons by (rule findall_skip [OF e])
      from "1.IH" Cons obtain gs where gs: "length gs = Suc (length (findall float_rx s'))"
        "concat (splice gs (findall float_rx s')) = s'"
        "\<forall>g \<in> set gs. \<forall>x \<in> set g. \<not> is_digit x"
        by auto
      then obtain g gs' where g: "gs = g # gs'" by (cases gs) auto
      have "length ((x # g) # gs') = Suc (length (findall float_rx s))"
        using gs(1) f g by simp
      moreover have "concat (splice ((x # g) # gs') (findall float_rx s)) = s"
        using gs(2) unfolding f g by (simp add: Cons)
      moreover have "\<forall>h \<in> set ((x # g) # gs'). \<forall>y \<in> set h. \<not> is_digit y"
        using gs(3) x unfolding g by simp
      ultimately show ?thesis by blast
    qed
  next
    case (Cons t ts)
    then have t: "length t < length s" "s = take (length s - length t) s @ t"
      using ends_float_rx_match [of t s] by simp_all
    have f: "findall float_rx s = take (length s - length t) s # findall float_rx t"
      by (rule findall_match [OF Cons])
    from "1.IH" t(1) obtain gs where gs: "length gs = Suc (length (findall float_rx t))"
        "concat (splice gs (findall float_rx t)) = t"
        "\<forall>g \<in> set gs. \<forall>x \<in> set g. \<not> is_digit x"
      by blast
    have "concat (splice ([] # gs) (findall float_rx s)) = take (length s - length t) s @ t"
      unfolding f using gs(2) by simp
    then have "concat (splice ([] # gs) (findall float_rx s)) = s"
      using t(2) by simp
    moreover have "length ([] # gs) = Suc (length (findall float_rx s))"
      using gs(1) f by simp
    moreover have "\<forall>h \<in> set ([] # gs). \<forall>y \<in> set h. \<not> is_digit y"
      using gs(3) by simp
    ultimately show ?thesis by blast
  qed
qed

lemma set_splice: "set (splice xs ys) = set xs \<union> set ys"
  by (induction xs ys rule: splice.induct) auto

lemma findall_no_digit:
  "\<forall>x \<in> set s. \<not> is_digit x \<Longrightarrow> findall float_rx s = []"
proof (rule ccontr)
  assume s: "\<forall>x \<in> set s. \<not> is_digit x" and "findall float_rx s \<noteq> []"
  then obtain m where m: "m \<in> set (findall float_rx s)" by (cases "findall float_rx s") auto
  from findall_gaps [of s] obtain gs where
    gs: "concat (splice gs (findall float_rx s)) = s" by blast
  have "set m \<subseteq> set s"
  proof -
    have "m \<in> set (splice gs (findall float_rx s))" using m by (simp add: set_splice)
    then have "set m \<subseteq> set (concat (splice gs (findall float_rx s)))" by auto
    with gs show ?thesis by simp
  qed
  moreover from float_rx_has_digit [OF findall_tokens [OF m]] obtain x
    where "x \<in> set m" "is_digit x" by blast
  ultimately show False using s by blast
qed

lemma findall_digit:
  "\<exists>x \<in> set s. is_digit x \<Longrightarrow> findall float_rx s \<noteq> []"
proof
  assume d: "\<exists>x \<in> set s. is_digit x" and e: "findall float_rx s = []"
  from findall_gaps [of s] e obtain gs where
    gs: "length gs = Suc 0" "concat (splice gs []) = s" "\<forall>g \<in> set gs. \<forall>x \<in> set g. \<not> is_digit x"
    by auto
  then obtain g where "gs = [g]" by (cases gs) auto
  with gs have "\<forall>x \<in> set s. \<not> is_digit x" by auto
  with d show False by blast
qed


lemma many_stop:
  "\<not> in_cls c y \<Longrightarrow> many c (s @ y # x) = map (\<lambda>t. t @ y # x) (many c s)"
  by (induction s) simp_all

lemma ends_stop:
  "\<not> rx_accepts r y \<Longrightarrow> ends r (s @ y # x) = map (\<lambda>t. t @ y # x) (ends r s)"
proof (induction r arbitrary: s)
  case (One c)
  then show ?case by (cases s) simp_all
next
  case (Many c)
  then show ?case by (simp add: many_stop)
next
  case (Many1 c)
  then show ?case by (cases s) (simp_all add: many_stop)
next
  case (Opt r)
  then show ?case by simp
next
  case (Seq r1 r2)
  then have 1: "ends r1 (s @ y # x) = map (\<lambda>t. t @ y # x) (ends r1 s)"
    and 2: "\<And>u. ends r2 (u @ y # x) = map (\<lambda>t. t @ y # x) (ends r2 u)"
    by simp_all
  show ?case
    by (simp add: 1 2 map_concat comp_def)
next
  case (Alt r1 r2)
  then show ?case by simp
qed

lemma not_digit_dot [simp]: "\<not> is_digit CHR ''.''" "\<not> is_digit CHR ''-''" "\<not> is_digit CHR ''+''"
  by (simp_all add: is_digit_def)

lemma ends_float_rx_cons:
  "ends float_rx (a # s) =
     (if a = CHR ''-'' \<or> a = CHR ''+'' then ends frac_rx s else []) @ ends frac_rx (a # s) @
     (if is_digit a then many Digit s else [])"
  by (simp add: float_rx_def)

lemma ends_float_rx_stop:
  assumes "s \<noteq> []" and "\<not> is_digit y" and "y \<noteq> CHR ''.''"
  shows "ends float_rx (s @ y # x) = map (\<lambda>t. t @ y # x) (ends float_rx s)"
proof -
  from assms(1) obtain a s' where s: "s = a # s'" by (cases s) auto
  have acc: "\<not> rx_accepts frac_rx y" "\<not> in_cls Digit y"
    using assms(2,3) by (simp_all add: frac_rx_def)
  have "ends float_rx (a # (s' @ y # x)) = map (\<lambda>t. t @ y # x) (ends float_rx (a # s'))"
    unfolding ends_float_rx_cons
    using ends_stop [OF acc(1), of s' x] ends_stop [OF acc(1), of "a # s'" x]
      many_stop [OF acc(2), of s' x]
    by simp
  then show ?thesis by (simp add: s)
qed

lemma findall_append_stop:
  assumes "\<not> is_digit y" and "y \<noteq> CHR ''.''"
  shows "findall float_rx (p @ y # x) = findall float_rx p @ findall float_rx (y # x)"
proof (induction p rule: length_induct)
  case (1 p)
  show ?case
  proof (cases p)
    case Nil
    then show ?thesis by (simp add: findall_nil)
  next
    case (Cons a p')
    then have ne: "p \<noteq> []" by simp
    note stop = ends_float_rx_stop [OF ne assms, of x]
    show ?thesis
    proof (cases "ends float_rx p")
      case Nil
      then have e1: "ends float_rx (a # p') = []" using Cons by simp
      from Nil stop have e2: "ends float_rx (a # (p' @ y # x)) = []" using Cons by simp
      have "length p' < length p" using Cons by simp
      with "1.IH" have "findall float_rx (p' @ y # x) = findall float_rx p' @ findall float_rx (y # x)"
        by blast
      then show ?thesis
        using findall_skip [OF e1] findall_skip [OF e2] by (simp add: Cons)
    next
      case (Cons t ts)
      then have t: "length t < length p" "p = take (length p - length t) p @ t"
        using ends_float_rx_match [of t p] by simp_all
      from Cons stop have e: "ends float_rx (p @ y # x) = (t @ y # x) # map (\<lambda>t. t @ y # x) ts"
        by simp
      have "findall float_rx (p @ y # x) =
              take (length (p @ y # x) - length (t @ y # x)) (p @ y # x) # findall float_rx (t @ y # x)"
        by (rule findall_match [OF e])
      moreover have "take (length (p @ y # x) - length (t @ y # x)) (p @ y # x) = take (length p - length t) p"
        using t(1) by simp
      moreover have "findall float_rx (t @ y # x) = findall float_rx t @ findall float_rx (y # x)"
        using "1.IH" t(1) by blast
      ultimately show ?thesis
        by (simp add: findall_match [OF Cons])
    qed
  qed
qed

lemma ends_frac_rx:
  "ends frac_rx s =
     (case dropWhile is_digit s of
        c # d # t \<Rightarrow> if c = CHR ''.'' \<and> is_digit d then many Digit t else []
      | _ \<Rightarrow> [])"
proof (induction s)
  case Nil
  then show ?case by (simp add: frac_rx_def)
next
  case (Cons a s)
  show ?case
  proof (cases "is_digit a")
    case True
    then have "a \<noteq> CHR ''.''" by auto
    with True Cons show ?thesis by (simp add: frac_rx_def)
  next
    case False
    then show ?thesis by (simp add: frac_rx_def split: list.splits)
  qed
qed

lemma dropWhile_digits:
  assumes "\<forall>x \<in> set ds. is_digit x" and "rest = [] \<or> \<not> is_digit (hd rest)"
  shows "dropWhile is_digit (ds @ rest) = rest"
proof -
  have "dropWhile is_digit rest = rest" using assms(2) by (cases rest) auto
  with assms(1) show ?thesis by (simp add: dropWhile_append2)
qed

lemma findall_unsigned:
  assumes sg: "sg = CHR ''-'' \<or> sg = CHR ''+''"
    and ds: "ds \<noteq> []" "\<forall>x \<in> set ds. is_digit x"
    and rest: "rest = [] \<or> \<not> is_digit (hd rest)"
      "\<not> (\<exists>d t. rest = CHR ''.'' # d # t \<and> is_digit d)"
  shows "findall float_rx (sg # ds @ rest) = ds # findall float_rx rest"
proof -
  from ds obtain d ds' where d: "ds = d # ds'" "is_digit d" "\<forall>x \<in> set ds'. is_digit x"
    by (cases ds) auto
  have nsg: "\<not> is_digit sg" "sg \<noteq> CHR ''.''" using sg by auto
  have dsg: "d \<noteq> CHR ''-''" "d \<noteq> CHR ''+''" using d(2) by auto
  have f1: "ends frac_rx (ds @ rest) = []"
    unfolding ends_frac_rx dropWhile_digits [OF ds(2) rest(1)]
    using rest(2) by (auto split: list.splits)
  have f2: "ends frac_rx (sg # ds @ rest) = []"
    unfolding ends_frac_rx using nsg by (simp split: list.splits)
  have "ends float_rx (sg # ds @ rest) = []"
    unfolding ends_float_rx_cons using f1 f2 nsg by simp
  then have skip: "findall float_rx (sg # ds @ rest) = findall float_rx (ds @ rest)"
    by (rule findall_skip)
  have "hd (many Digit (ds' @ rest)) = rest"
  proof -
    have "in_cls Digit = is_digit" by (rule ext) simp
    then show ?thesis
      unfolding many_hd using dropWhile_digits [OF d(3) rest(1)] by simp
  qed
  then obtain ts where m: "many Digit (ds' @ rest) = rest # ts"
    using many_nonempty [of Digit "ds' @ rest"] by (cases "many Digit (ds' @ rest)") auto
  have "ends float_rx (d # ds' @ rest) = rest # ts"
    unfolding ends_float_rx_cons using f1 d dsg m by simp
  then have e: "ends float_rx (ds @ rest) = rest # ts" by (simp add: d(1))
  have "findall float_rx (ds @ rest) = take (length (ds @ rest) - length rest) (ds @ rest) # findall float_rx rest"
    by (rule findall_match [OF e])
  with skip show ?thesis by simp
qed

lemma findall_sign_dot:
  assumes "m \<in> set (findall float_rx s)"
  shows "m \<noteq> [] \<and> (hd m = CHR ''-'' \<or> hd m = CHR ''+'' \<longrightarrow> CHR ''.'' \<in> set m)"
proof -
  from findall_tokens [OF assms, unfolded lang_float_rx] show ?thesis
  proof
    assume "\<exists>sg ds fs. m = sg @ ds @ ''.'' @ fs \<and> sg \<in> {[], ''-'', ''+''} \<and>
        (\<forall>x \<in> set ds. is_digit x) \<and> fs \<noteq> [] \<and> (\<forall>x \<in> set fs. is_digit x)"
    then show ?thesis by auto
  next
    assume "m \<noteq> [] \<and> (\<forall>x \<in> set m. is_digit x)"
    then have "m \<noteq> []" "is_digit (hd m)" by simp_all
    then show ?thesis by auto
  qed
qed


text \<open>
  C2, as the claim states it, fails at its own example: the \<open>5\<close> of the extension
  \<open>.h5\<close> is a match of the right alternative \<open>\d+\<close>.
\<close>

theorem extract_floats_example:
  "extract_floats ''dataset_tumble_0.125_0.3.h5'' = [''0.125'', ''0.3'', ''5''] \<and>
   extract_floats ''dataset_tumble_0.125_0.3.h5'' \<noteq> [''0.125'', ''0.3'']"
  by code_simp

text \<open>
  C2, amended. For every input string \<open>s\<close>, \<open>extract_floats\<close> returns matches of the float
  grammar, in left-to-right order and without overlap: \<open>s\<close> is the unmatched text before
  the first match, the first match, the unmatched text behind it, and so on; no digit of
  \<open>s\<close> is left unmatched. The result is empty for a string with no digit. For
  \<open>dataset_tumble_0.125_0.3.h5\<close> the result is \<open>0.125\<close>, \<open>0.3\<close>, \<open>5\<close>.
\<close>

theorem extract_floats_spec:
  "(\<forall>m \<in> set (extract_floats s). m \<in> lang float_rx) \<and>
   (\<exists>gs. length gs = Suc (length (extract_floats s)) \<and>
         concat (splice gs (extract_floats s)) = s \<and>
         (\<forall>g \<in> set gs. \<forall>x \<in> set g. \<not> is_digit x)) \<and>
   ((\<forall>x \<in> set s. \<not> is_digit x) \<longrightarrow> extract_floats s = []) \<and>
   extract_floats ''dataset_tumble_0.125_0.3.h5'' = [''0.125'', ''0.3'', ''5'']"
proof (intro conjI ballI impI)
  fix m
  assume "m \<in> set (extract_floats s)"
  then show "m \<in> lang float_rx"
    unfolding extract_floats_def by (rule findall_tokens)
next
  show "\<exists>gs. length gs = Suc (length (extract_floats s)) \<and>
         concat (splice gs (extract_floats s)) = s \<and>
         (\<forall>g \<in> set gs. \<forall>x \<in> set g. \<not> is_digit x)"
    unfolding extract_floats_def by (rule findall_gaps)
next
  assume "\<forall>x \<in> set s. \<not> is_digit x"
  then show "extract_floats s = []"
    unfolding extract_floats_def by (rule findall_no_digit)
next
  show "extract_floats ''dataset_tumble_0.125_0.3.h5'' = [''0.125'', ''0.3'', ''5'']"
    by code_simp
qed

theorem extract_floats_spec_witness:
  "''-1.5'' \<in> lang float_rx \<and> ''20'' \<in> lang float_rx \<and>
   (\<exists>gs. length gs = Suc (Suc (Suc 0)) \<and> concat (splice gs [''-1.5'', ''20'']) = ''a-1.5b20'' \<and>
         (\<forall>g \<in> set gs. \<forall>x \<in> set g. \<not> is_digit x)) \<and>
   extract_floats ''a.b-'' = []"
proof -
  have e: "extract_floats ''a-1.5b20'' = [''-1.5'', ''20'']" by code_simp
  have n: "\<forall>x \<in> set ''a.b-''. \<not> is_digit x" by (simp add: is_digit_def)
  show ?thesis
    using extract_floats_spec [of "''a-1.5b20''"] extract_floats_spec [of "''a.b-''"] n
    unfolding e by simp
qed

text \<open>
  C10. In every input string in which a sign is followed by a run of digits that is
  followed neither by a further digit nor by a decimal point and a digit, the match
  found there is the run of digits without the sign (\<open>-5\<close> gives \<open>5\<close>); and every
  returned match that begins with a sign contains a decimal point.
\<close>

theorem extract_floats_sign_dropped:
  assumes "sg = CHR ''-'' \<or> sg = CHR ''+''"
    and "ds \<noteq> []" and "\<forall>x \<in> set ds. is_digit x"
    and "rest = [] \<or> \<not> is_digit (hd rest)"
    and "\<not> (\<exists>d t. rest = CHR ''.'' # d # t \<and> is_digit d)"
  shows "extract_floats (p @ sg # ds @ rest) = extract_floats p @ ds # extract_floats rest \<and>
         (\<forall>m \<in> set (extract_floats s).
            m \<noteq> [] \<and> (hd m = CHR ''-'' \<or> hd m = CHR ''+'' \<longrightarrow> CHR ''.'' \<in> set m))"
proof
  have sg: "\<not> is_digit sg" "sg \<noteq> CHR ''.''" using assms(1) by auto
  have "findall float_rx (p @ sg # ds @ rest)
          = findall float_rx p @ findall float_rx (sg # ds @ rest)"
    by (rule findall_append_stop [OF sg])
  also have "findall float_rx (sg # ds @ rest) = ds # findall float_rx rest"
    by (rule findall_unsigned [OF assms])
  finally show "extract_floats (p @ sg # ds @ rest) = extract_floats p @ ds # extract_floats rest"
    by (simp add: extract_floats_def)
  show "\<forall>m \<in> set (extract_floats s).
            m \<noteq> [] \<and> (hd m = CHR ''-'' \<or> hd m = CHR ''+'' \<longrightarrow> CHR ''.'' \<in> set m)"
    unfolding extract_floats_def using findall_sign_dot by blast
qed

theorem extract_floats_sign_dropped_witness:
  "extract_floats ''-5'' = [''5''] \<and> extract_floats ''x=+12.'' = [''12''] \<and>
   extract_floats ''-.5'' = [''-.5''] \<and> CHR ''.'' \<in> set ''-.5''"
proof -
  have d: "\<forall>x \<in> set ''5''. is_digit x" "\<forall>x \<in> set ''12''. is_digit x"
    by (simp_all add: is_digit_def)
  have e: "extract_floats [] = []" "extract_floats ''.'' = []" "extract_floats ''x='' = []"
    "extract_floats ''-.5'' = [''-.5'']"
    by code_simp+
  have a: "extract_floats ''-5'' = [''5'']"
    using extract_floats_sign_dropped [of "CHR ''-''" "''5''" "[]" "[]" "[]"] d e by simp
  have b: "extract_floats ''x=+12.'' = [''12'']"
    using extract_floats_sign_dropped [of "CHR ''+''" "''12''" "''.''" "''x=''" "[]"] d e by simp
  have c: "CHR ''.'' \<in> set ''-.5''"
    using extract_floats_sign_dropped [of "CHR ''-''" "''5''" "[]" "[]" "''-.5''"] d e by simp
  show ?thesis using a b c e(4) by simp
qed

subsection \<open>Loading\<close>

lemma pixels_map_pixels: "pixels (map_pixels f a) = f ` pixels a"
  by (auto simp: pixels_def map_pixels_def)

lemma pixels_triplet: "a \<in> set (triplet img) \<Longrightarrow> pixels a = pixels img"
  by (auto simp: triplet_def)

lemma length_concat_triplet: "length (concat (map triplet imgs)) = 3 * length imgs"
  by (induction imgs) (simp_all add: triplet_def)

lemma foldM_steps:
  "foldM f xs st = Inr st' \<Longrightarrow> x \<in> set xs \<Longrightarrow> \<exists>s s'. f s x = Inr s'"
proof (induction xs arbitrary: st)
  case Nil
  then show ?case by simp
next
  case (Cons y ys)
  from Cons.prems(1) obtain st1 where 1: "f st y = Inr st1" and 2: "foldM f ys st1 = Inr st'"
    by (auto split: sum.splits)
  show ?case
  proof (cases "x = y")
    case True
    with 1 show ?thesis by blast
  next
    case False
    with Cons.prems(2) have "x \<in> set ys" by simp
    from Cons.IH [OF 2 this] show ?thesis .
  qed
qed

lemma load_image_Inr:
  assumes "load_image env orientation scrambled tumble st raw = Inr st'"
  shows "\<exists>img2 k. preprocess env orientation scrambled (draws st) raw = Inr (img2, k) \<and>
           inputs st' = inputs st @ triplet (add_channel img2) \<and>
           outputs st' = outputs st @ replicate 3 tumble \<and>
           shape st' \<noteq> None"
proof -
  from assms obtain img2 k where
    p: "preprocess env orientation scrambled (draws st) raw = Inr (img2, k)"
    by (auto simp: load_image_def split: sum.splits)
  with assms have "st' = \<lparr>inputs = inputs st @ triplet (add_channel img2),
               outputs = outputs st @ [tumble, tumble, tumble],
               shape = Some (nrows (add_channel img2), ncols (add_channel img2), 1),
               draws = k\<rparr>"
    by (simp add: load_image_def triplet_def Let_def)
  then have "inputs st' = inputs st @ triplet (add_channel img2)"
    "outputs st' = outputs st @ replicate 3 tumble" "shape st' \<noteq> None"
    by (simp_all add: numeral_3_eq_3)
  with p show ?thesis by blast
qed

lemma load_images_Inr:
  assumes "foldM (load_image env orientation scrambled tumble) raws st = Inr st'"
    and "\<forall>raw \<in> set raws. \<forall>k img2 k'.
           preprocess env orientation scrambled k raw = Inr (img2, k') \<longrightarrow> Q (add_channel img2)"
  shows "\<exists>imgs. length imgs = length raws \<and> (\<forall>img \<in> set imgs. Q img) \<and>
           inputs st' = inputs st @ concat (map triplet imgs) \<and>
           outputs st' = outputs st @ replicate (3 * length raws) tumble"
  using assms
proof (induction raws arbitrary: st)
  case Nil
  then show ?case by simp
next
  case (Cons raw raws)
  from Cons.prems(1) obtain st1 where
    1: "load_image env orientation scrambled tumble st raw = Inr st1"
    and 2: "foldM (load_image env orientation scrambled tumble) raws st1 = Inr st'"
    by (auto split: sum.splits)
  from load_image_Inr [OF 1] obtain img2 k where
    p: "preprocess env orientation scrambled (draws st) raw = Inr (img2, k)"
    and i1: "inputs st1 = inputs st @ triplet (add_channel img2)"
    and o1: "outputs st1 = outputs st @ replicate 3 tumble"
    by blast
  have q: "Q (add_channel img2)" using Cons.prems(2) p by auto
  have q': "\<forall>raw \<in> set raws. \<forall>k img2 k'.
           preprocess env orientation scrambled k raw = Inr (img2, k') \<longrightarrow> Q (add_channel img2)"
    using Cons.prems(2) by simp
  from Cons.IH [OF 2 q'] obtain imgs where
    l: "length imgs = length raws" and qs: "\<forall>img \<in> set imgs. Q img"
    and i2: "inputs st' = inputs st1 @ concat (map triplet imgs)"
    and o2: "outputs st' = outputs st1 @ replicate (3 * length raws) tumble"
    by blast
  let ?imgs = "add_channel img2 # imgs"
  have "length ?imgs = length (raw # raws)" using l by simp
  moreover have "\<forall>img \<in> set ?imgs. Q img" using q qs by simp
  moreover have "inputs st' = inputs st @ concat (map triplet ?imgs)"
    using i1 i2 by simp
  moreover have "outputs st' = outputs st @ replicate (3 * length (raw # raws)) tumble"
    using o1 o2 by (simp add: replicate_add [symmetric])
  ultimately show ?case by blast
qed

lemma load_file_Inr:
  assumes "load_file env orientation scrambled st f = Inr st'"
  shows "extract_floats f \<noteq> [] \<and>
         foldM (load_image env orientation scrambled (file_label env f))
               (map snd (h5_read env f)) st = Inr st'"
  using assms by (auto simp: load_file_def file_label_def split: list.splits)

lemma load_files_Inr:
  assumes "foldM (load_file env orientation scrambled) files st = Inr st'"
    and "\<forall>f \<in> set files. \<forall>raw \<in> snd ` set (h5_read env f). \<forall>k img2 k'.
           preprocess env orientation scrambled k raw = Inr (img2, k') \<longrightarrow> Q (add_channel img2)"
  shows "\<exists>imgss. list_all2 (\<lambda>f imgs. length imgs = length (h5_read env f)) files imgss \<and>
           (\<forall>imgs \<in> set imgss. \<forall>img \<in> set imgs. Q img) \<and>
           inputs st' = inputs st @ concat (map (\<lambda>imgs. concat (map triplet imgs)) imgss) \<and>
           outputs st' = outputs st @
             concat (map (\<lambda>f. replicate (3 * length (h5_read env f)) (file_label env f)) files) \<and>
           (\<forall>f \<in> set files. extract_floats f \<noteq> [])"
  using assms
proof (induction files arbitrary: st)
  case Nil
  then show ?case by simp
next
  case (Cons f files)
  from Cons.prems(1) obtain st1 where
    1: "load_file env orientation scrambled st f = Inr st1"
    and 2: "foldM (load_file env orientation scrambled) files st1 = Inr st'"
    by (auto split: sum.splits)
  from load_file_Inr [OF 1] have ef: "extract_floats f \<noteq> []"
    and fo: "foldM (load_image env orientation scrambled (file_label env f))
               (map snd (h5_read env f)) st = Inr st1"
    by simp_all
  have qf: "\<forall>raw \<in> set (map snd (h5_read env f)). \<forall>k img2 k'.
           preprocess env orientation scrambled k raw = Inr (img2, k') \<longrightarrow> Q (add_channel img2)"
    using Cons.prems(2) by simp
  from load_images_Inr [where Q = Q, OF fo qf] obtain imgs where
    l: "length imgs = length (h5_read env f)" and qs: "\<forall>img \<in> set imgs. Q img"
    and i1: "inputs st1 = inputs st @ concat (map triplet imgs)"
    and o1: "outputs st1 = outputs st @ replicate (3 * length (h5_read env f)) (file_label env f)"
    by auto
  have q': "\<forall>f \<in> set files. \<forall>raw \<in> snd ` set (h5_read env f). \<forall>k img2 k'.
           preprocess env orientation scrambled k raw = Inr (img2, k') \<longrightarrow> Q (add_channel img2)"
    using Cons.prems(2) by simp
  from Cons.IH [OF 2 q'] obtain imgss where
    la: "list_all2 (\<lambda>f imgs. length imgs = length (h5_read env f)) files imgss"
    and qss: "\<forall>imgs \<in> set imgss. \<forall>img \<in> set imgs. Q img"
    and i2: "inputs st' = inputs st1 @ concat (map (\<lambda>imgs. concat (map triplet imgs)) imgss)"
    and o2: "outputs st' = outputs st1 @
             concat (map (\<lambda>f. replicate (3 * length (h5_read env f)) (file_label env f)) files)"
    and efs: "\<forall>f \<in> set files. extract_floats f \<noteq> []"
    by blast
  let ?imgss = "imgs # imgss"
  have "list_all2 (\<lambda>f imgs. length imgs = length (h5_read env f)) (f # files) ?imgss"
    using l la by simp
  moreover have "\<forall>imgs \<in> set ?imgss. \<forall>img \<in> set imgs. Q img" using qs qss by simp
  moreover have "inputs st' = inputs st @ concat (map (\<lambda>imgs. concat (map triplet imgs)) ?imgss)"
    using i1 i2 by simp
  moreover have "outputs st' = outputs st @
      concat (map (\<lambda>f. replicate (3 * length (h5_read env f)) (file_label env f)) (f # files))"
    using o1 o2 by simp
  moreover have "\<forall>g \<in> set (f # files). extract_floats g \<noteq> []" using ef efs by simp
  ultimately show ?case by blast
qed

lemma zip_triplets:
  "zip (concat (map triplet imgs)) (replicate (3 * length imgs) l)
     = concat (map (\<lambda>img. map (\<lambda>a. (a, l)) (triplet img)) imgs)"
proof (induction imgs)
  case Nil
  then show ?case by simp
next
  case (Cons img imgs)
  have "replicate (3 * length (img # imgs)) l = [l, l, l] @ replicate (3 * length imgs) l"
    by (simp add: numeral_3_eq_3)
  then show ?case using Cons by (simp add: triplet_def)
qed

lemma zip_labelled_triplets:
  assumes "list_all2 (\<lambda>f imgs. length imgs = length (h5_read env f)) files imgss"
  shows "zip (concat (map (\<lambda>imgs. concat (map triplet imgs)) imgss))
             (concat (map (\<lambda>f. replicate (3 * length (h5_read env f)) (file_label env f)) files))
           = labelled_triplets env files imgss \<and>
         length (concat (map (\<lambda>imgs. concat (map triplet imgs)) imgss)) = 3 * image_count env files \<and>
         length (concat (map (\<lambda>f. replicate (3 * length (h5_read env f)) (file_label env f)) files))
           = 3 * image_count env files"
  using assms
proof (induction rule: list_all2_induct)
  case Nil
  then show ?case by (simp add: labelled_triplets_def image_count_def)
next
  case (Cons f files imgs imgss)
  have len: "length (concat (map triplet imgs)) = 3 * length (h5_read env f)"
    using Cons.hyps(1) by (simp add: length_concat_triplet)
  have z: "zip (concat (map triplet imgs)) (replicate (3 * length (h5_read env f)) (file_label env f))
        = concat (map (\<lambda>img. map (\<lambda>a. (a, file_label env f)) (triplet img)) imgs)"
    using zip_triplets [of imgs "file_label env f"] Cons.hyps(1) by simp
  from Cons.IH have
    ih1: "zip (concat (map (\<lambda>imgs. concat (map triplet imgs)) imgss))
             (concat (map (\<lambda>f. replicate (3 * length (h5_read env f)) (file_label env f)) files))
           = labelled_triplets env files imgss"
    and ih2: "length (concat (map (\<lambda>imgs. concat (map triplet imgs)) imgss)) = 3 * image_count env files"
    and ih3: "length (concat (map (\<lambda>f. replicate (3 * length (h5_read env f)) (file_label env f)) files))
           = 3 * image_count env files"
    by simp_all
  have "zip (concat (map triplet imgs) @ concat (map (\<lambda>imgs. concat (map triplet imgs)) imgss))
            (replicate (3 * length (h5_read env f)) (file_label env f) @
             concat (map (\<lambda>f. replicate (3 * length (h5_read env f)) (file_label env f)) files))
        = concat (map (\<lambda>img. map (\<lambda>a. (a, file_label env f)) (triplet img)) imgs) @
          labelled_triplets env files imgss"
    using len z ih1 by (simp add: zip_append)
  moreover have "labelled_triplets env (f # files) (imgs # imgss)
        = concat (map (\<lambda>img. map (\<lambda>a. (a, file_label env f)) (triplet img)) imgs) @
          labelled_triplets env files imgss"
    by (simp add: labelled_triplets_def)
  moreover have "image_count env (f # files) = length (h5_read env f) + image_count env files"
    by (simp add: image_count_def)
  ultimately show ?case using len ih2 ih3 by simp
qed

lemma take_indices_Inr:
  "take_indices xs idx = Inr ys \<Longrightarrow> ys = map (\<lambda>i. xs ! i) idx \<and> (\<forall>i \<in> set idx. i < length xs)"
  by (auto simp: take_indices_def list_all_iff split: if_splits)

lemma np_array_Inr: "np_array imgs = Inr arr \<Longrightarrow> arr = imgs"
  by (auto simp: np_array_def split: list.splits if_splits)

lemma data_load_Inr:
  assumes ret: "data_load env alphas densities orientation scrambled = Inr (xs, ys, shp)"
    and Q: "\<forall>f \<in> set (matched_files env alphas densities).
           \<forall>raw \<in> snd ` set (h5_read env f). \<forall>k img2 k'.
           preprocess env orientation scrambled k raw = Inr (img2, k') \<longrightarrow> Q (add_channel img2)"
  shows "\<exists>imgss ins outs order.
           list_all2 (\<lambda>f imgs. length imgs = length (h5_read env f))
             (matched_files env alphas densities) imgss \<and>
           (\<forall>imgs \<in> set imgss. \<forall>img \<in> set imgs. Q img) \<and>
           ins = concat (map (\<lambda>imgs. concat (map triplet imgs)) imgss) \<and>
           outs = concat (map (\<lambda>f. replicate (3 * length (h5_read env f)) (file_label env f))
                    (matched_files env alphas densities)) \<and>
           order = np_permutation env [0..<length outs] \<and>
           (\<forall>i \<in> set order. i < length ins \<and> i < length outs) \<and>
           xs = map (\<lambda>i. ins ! i) order \<and> ys = map (\<lambda>i. outs ! i) order \<and>
           (\<forall>f \<in> set (matched_files env alphas densities). extract_floats f \<noteq> [])"
proof -
  let ?files = "matched_files env alphas densities"
  let ?st0 = "\<lparr>inputs = [], outputs = [], shape = None, draws = 0\<rparr>"
  from ret obtain st arr where
    fo: "foldM (load_file env orientation scrambled) ?files ?st0 = Inr st"
    and arr: "np_array (inputs st) = Inr arr"
    and tx: "take_indices arr (np_permutation env [0..<length (outputs st)]) = Inr xs"
    and ty: "take_indices (outputs st) (np_permutation env [0..<length (outputs st)]) = Inr ys"
    unfolding data_load_def Let_def by (auto split: sum.splits option.splits)
  from load_files_Inr [where Q = Q, OF fo Q] obtain imgss where
    la: "list_all2 (\<lambda>f imgs. length imgs = length (h5_read env f)) ?files imgss"
    and qs: "\<forall>imgs \<in> set imgss. \<forall>img \<in> set imgs. Q img"
    and i: "inputs st = concat (map (\<lambda>imgs. concat (map triplet imgs)) imgss)"
    and o: "outputs st =
             concat (map (\<lambda>f. replicate (3 * length (h5_read env f)) (file_label env f)) ?files)"
    and ef: "\<forall>f \<in> set ?files. extract_floats f \<noteq> []"
    by auto
  have a: "arr = inputs st" using np_array_Inr [OF arr] .
  from take_indices_Inr [OF tx] take_indices_Inr [OF ty] a
  have "xs = map (\<lambda>i. inputs st ! i) (np_permutation env [0..<length (outputs st)])"
    "ys = map (\<lambda>i. outputs st ! i) (np_permutation env [0..<length (outputs st)])"
    "\<forall>i \<in> set (np_permutation env [0..<length (outputs st)]).
        i < length (inputs st) \<and> i < length (outputs st)"
    by simp_all
  with la qs ef show ?thesis unfolding i o by blast
qed

lemma zip_by_index:
  assumes "\<forall>i \<in> set order. i < length ins \<and> i < length outs"
  shows "zip (map (\<lambda>i. ins ! i) order) (map (\<lambda>i. outs ! i) order)
           = map (\<lambda>i. zip ins outs ! i) order"
  using assms by (induction order) simp_all

lemma example_env_permutation: "\<forall>l. mset (np_permutation example_env l) = mset l"
  by (simp add: example_env_def)

lemma example_env_files:
  "matched_files example_env [1 / 64] [1 / 10] = [''no_roll_data/dataset_tumble_0.016_0.1.h5'']"
  by (simp add: matched_files_def dataset_pattern_def example_env_def)

text \<open>
  C1. When \<open>data_load\<close> returns, the image array and the label array have the same length,
  three times the number of images of the matched files; and the returned samples are,
  in the order drawn by the random permutation, the samples of \<open>labelled_triplets\<close>: for
  every file and every image of it, the preprocessed image and its shifts by \<open>(42, 42)\<close> and
  \<open>(120, 120)\<close>, each with the label of the file, the number read by \<open>float\<close> from the first
  match of \<open>extract_floats\<close> in the path.
\<close>

theorem data_load_triplets:
  assumes "data_load env alphas densities orientation scrambled = Inr (xs, ys, shp)"
    and "\<forall>l. mset (np_permutation env l) = mset l"
  shows "length xs = length ys \<and>
         length xs = 3 * image_count env (matched_files env alphas densities) \<and>
         (\<exists>imgss order.
            list_all2 (\<lambda>f imgs. length imgs = length (h5_read env f))
              (matched_files env alphas densities) imgss \<and>
            mset order = mset [0..<3 * image_count env (matched_files env alphas densities)] \<and>
            zip xs ys =
              map (\<lambda>i. labelled_triplets env (matched_files env alphas densities) imgss ! i)
                  order) \<and>
         (\<forall>f \<in> set (matched_files env alphas densities). extract_floats f \<noteq> [])"
proof -
  let ?files = "matched_files env alphas densities"
  from data_load_Inr [where Q = "\<lambda>_. True", OF assms(1)]
  obtain imgss ins outs order where
    la: "list_all2 (\<lambda>f imgs. length imgs = length (h5_read env f)) ?files imgss"
    and ins: "ins = concat (map (\<lambda>imgs. concat (map triplet imgs)) imgss)"
    and outs: "outs = concat (map (\<lambda>f. replicate (3 * length (h5_read env f)) (file_label env f))
                    ?files)"
    and order: "order = np_permutation env [0..<length outs]"
    and bound: "\<forall>i \<in> set order. i < length ins \<and> i < length outs"
    and xs: "xs = map (\<lambda>i. ins ! i) order" and ys: "ys = map (\<lambda>i. outs ! i) order"
    and ef: "\<forall>f \<in> set ?files. extract_floats f \<noteq> []"
    by auto
  from zip_labelled_triplets [OF la] have
    z: "zip ins outs = labelled_triplets env ?files imgss"
    and li: "length ins = 3 * image_count env ?files"
    and lo: "length outs = 3 * image_count env ?files"
    unfolding ins outs by simp_all
  have m: "mset order = mset [0..<3 * image_count env ?files]"
    using assms(2) unfolding order lo by simp
  then have "size (mset order) = size (mset [0..<3 * image_count env ?files])" by simp
  then have lorder: "length order = 3 * image_count env ?files" by simp
  have "zip xs ys = map (\<lambda>i. zip ins outs ! i) order"
    unfolding xs ys by (rule zip_by_index [OF bound])
  then have zz: "zip xs ys = map (\<lambda>i. labelled_triplets env ?files imgss ! i) order"
    unfolding z .
  have "length xs = length ys" "length xs = 3 * image_count env ?files"
    using lorder by (simp_all add: xs ys)
  with la m zz ef show ?thesis by blast
qed

theorem data_load_triplets_witness:
  "\<exists>xs ys shp. data_load example_env [1 / 64] [1 / 10] True False = Inr (xs, ys, shp) \<and>
     length xs = length ys \<and> length xs = 3 * 2 \<and>
     image_count example_env (matched_files example_env [1 / 64] [1 / 10]) = 2 \<and>
     ys = [2 / 125, 2 / 125, 2 / 125, 2 / 125, 2 / 125, 2 / 125]"
proof -
  have c: "image_count example_env (matched_files example_env [1 / 64] [1 / 10]) = 2"
    unfolding example_env_files by (simp add: image_count_def example_env_def)
  have "case data_load example_env [1 / 64] [1 / 10] True False of
          Inl e \<Rightarrow> False
        | Inr (xs, ys, shp) \<Rightarrow> ys = [2 / 125, 2 / 125, 2 / 125, 2 / 125, 2 / 125, 2 / 125]"
    by code_simp
  then obtain xs ys shp where
    r: "data_load example_env [1 / 64] [1 / 10] True False = Inr (xs, ys, shp)"
    and y: "ys = [2 / 125, 2 / 125, 2 / 125, 2 / 125, 2 / 125, 2 / 125]"
    by (auto split: sum.splits)
  from data_load_triplets [OF r example_env_permutation]
  have "length xs = length ys" "length xs = 3 * 2" unfolding c by simp_all
  with c y r show ?thesis by blast
qed

lemma data_load_members:
  assumes ret: "data_load env alphas densities orientation scrambled = Inr (xs, ys, shp)"
    and Q: "\<forall>f \<in> set (matched_files env alphas densities).
           \<forall>raw \<in> snd ` set (h5_read env f). \<forall>k img2 k'.
           preprocess env orientation scrambled k raw = Inr (img2, k') \<longrightarrow>
           pixels (add_channel img2) \<subseteq> S"
  shows "\<forall>a \<in> set xs. pixels a \<subseteq> S"
proof
  fix a assume a: "a \<in> set xs"
  have "\<exists>imgss ins outs order.
           list_all2 (\<lambda>f imgs. length imgs = length (h5_read env f))
             (matched_files env alphas densities) imgss \<and>
           (\<forall>imgs \<in> set imgss. \<forall>img \<in> set imgs. pixels img \<subseteq> S) \<and>
           ins = concat (map (\<lambda>imgs. concat (map triplet imgs)) imgss) \<and>
           outs = concat (map (\<lambda>f. replicate (3 * length (h5_read env f)) (file_label env f))
                    (matched_files env alphas densities)) \<and>
           order = np_permutation env [0..<length outs] \<and>
           (\<forall>i \<in> set order. i < length ins \<and> i < length outs) \<and>
           xs = map (\<lambda>i. ins ! i) order \<and> ys = map (\<lambda>i. outs ! i) order \<and>
           (\<forall>f \<in> set (matched_files env alphas densities). extract_floats f \<noteq> [])"
    by (rule data_load_Inr [where Q = "\<lambda>img. pixels img \<subseteq> S", OF ret Q])
  then obtain imgss ins outs order where
    qs: "\<forall>imgs \<in> set imgss. \<forall>img \<in> set imgs. pixels img \<subseteq> S"
    and ins: "ins = concat (map (\<lambda>imgs. concat (map triplet imgs)) imgss)"
    and bound: "\<forall>i \<in> set order. i < length ins \<and> i < length (outs :: real list)"
    and xs: "xs = map (\<lambda>i. ins ! i) order"
    by (elim exE conjE) (rule that, assumption+)
  from a xs obtain i where i: "i \<in> set order" "a = ins ! i" by auto
  with bound have "a \<in> set ins" by simp
  then obtain imgs where imgs: "imgs \<in> set imgss" "a \<in> set (concat (map triplet imgs))"
    unfolding ins by auto
  then obtain img where img: "img \<in> set imgs" "a \<in> set (triplet img)" by auto
  from pixels_triplet [OF img(2)] qs imgs(1) img(1) show "pixels a \<subseteq> S" by simp
qed

text \<open>
  C3. When every pixel of every image of the matched files is one of \<open>0, 1, 2, 3, 4\<close> and
  \<open>data_load\<close> returns: with \<open>orientation=False\<close> and \<open>scrambled=False\<close> every pixel of every
  returned image is \<open>0\<close> or \<open>1\<close>; with \<open>orientation=True\<close> it is one of
  \<open>0, 0.25, 0.5, 0.75, 1\<close>. (A pixel of a returned image is a channel vector of length one.)
\<close>

theorem data_load_pixel_values:
  assumes "data_load env alphas densities orientation scrambled = Inr (xs, ys, shp)"
    and "\<forall>f \<in> set (matched_files env alphas densities).
           \<forall>raw \<in> snd ` set (h5_read env f). pixels raw \<subseteq> {0, 1, 2, 3, 4}"
  shows "(\<not> orientation \<and> \<not> scrambled \<longrightarrow> (\<forall>a \<in> set xs. pixels a \<subseteq> {[0], [1]})) \<and>
         (orientation \<longrightarrow> (\<forall>a \<in> set xs. pixels a \<subseteq> {[0], [1 / 4], [1 / 2], [3 / 4], [1]}))"
proof (intro conjI impI)
  assume o: "\<not> orientation \<and> \<not> scrambled"
  have "\<forall>f \<in> set (matched_files env alphas densities).
           \<forall>raw \<in> snd ` set (h5_read env f). \<forall>k img2 k'.
           preprocess env orientation scrambled k raw = Inr (img2, k') \<longrightarrow>
           pixels (add_channel img2) \<subseteq> {[0], [1]}"
  proof (intro ballI allI impI)
    fix f raw k img2 k'
    assume "f \<in> set (matched_files env alphas densities)" "raw \<in> snd ` set (h5_read env f)"
      and p: "preprocess env orientation scrambled k raw = Inr (img2, k')"
    with assms(2) have raw: "pixels raw \<subseteq> {0, 1, 2, 3, 4}" by blast
    from p o have "img2 = binarize raw" by (simp add: preprocess_def)
    then have "pixels (add_channel img2) = (\<lambda>v. [if v > 0 then 1 else v]) ` pixels raw"
      by (simp only: add_channel_def binarize_def pixels_map_pixels image_image)
    also have "\<dots> \<subseteq> (\<lambda>v. [if v > 0 then 1 else v]) ` {0, 1, 2, 3, 4 :: real}"
      using raw by (rule image_mono)
    also have "\<dots> \<subseteq> {[0], [1]}"
      by simp
    finally show "pixels (add_channel img2) \<subseteq> {[0], [1]}" .
  qed
  from data_load_members [OF assms(1) this]
  show "\<forall>a \<in> set xs. pixels a \<subseteq> {[0], [1]}" .
next
  assume o: orientation
  have "\<forall>f \<in> set (matched_files env alphas densities).
           \<forall>raw \<in> snd ` set (h5_read env f). \<forall>k img2 k'.
           preprocess env orientation scrambled k raw = Inr (img2, k') \<longrightarrow>
           pixels (add_channel img2) \<subseteq> {[0], [1 / 4], [1 / 2], [3 / 4], [1]}"
  proof (intro ballI allI impI)
    fix f raw k img2 k'
    assume "f \<in> set (matched_files env alphas densities)" "raw \<in> snd ` set (h5_read env f)"
      and p: "preprocess env orientation scrambled k raw = Inr (img2, k')"
    with assms(2) have raw: "pixels raw \<subseteq> {0, 1, 2, 3, 4}" by blast
    from p o have "img2 = map_pixels (\<lambda>v. v / 4) raw" by (simp add: preprocess_def)
    then have "pixels (add_channel img2) = (\<lambda>v. [v / 4]) ` pixels raw"
      by (simp only: add_channel_def pixels_map_pixels image_image)
    also have "\<dots> \<subseteq> (\<lambda>v. [v / 4]) ` {0, 1, 2, 3, 4 :: real}"
      using raw by (rule image_mono)
    also have "\<dots> \<subseteq> {[0], [1 / 4], [1 / 2], [3 / 4], [1]}"
      by simp
    finally show "pixels (add_channel img2) \<subseteq> {[0], [1 / 4], [1 / 2], [3 / 4], [1]}" .
  qed
  from data_load_members [OF assms(1) this]
  show "\<forall>a \<in> set xs. pixels a \<subseteq> {[0], [1 / 4], [1 / 2], [3 / 4], [1]}" .
qed

theorem data_load_pixel_values_witness:
  "(\<exists>xs ys shp. data_load example_env [1 / 64] [1 / 10] False False = Inr (xs, ys, shp) \<and>
      \<Union> (pixels ` set xs) \<subseteq> {[0], [1]}) \<and>
   (\<exists>xs ys shp. data_load example_env [1 / 64] [1 / 10] True False = Inr (xs, ys, shp) \<and>
      \<Union> (pixels ` set xs) \<subseteq> {[0], [1 / 4], [1 / 2], [3 / 4], [1]})"
proof -
  have raw: "\<forall>f \<in> set (matched_files example_env [1 / 64] [1 / 10]).
           \<forall>raw \<in> snd ` set (h5_read example_env f). pixels raw \<subseteq> {0, 1, 2, 3, 4}"
    by (simp add: example_env_def pixels_def)
  have "case data_load example_env [1 / 64] [1 / 10] False False of
          Inl e \<Rightarrow> False | Inr r \<Rightarrow> True"
    by code_simp
  then obtain xs ys shp where
    r: "data_load example_env [1 / 64] [1 / 10] False False = Inr (xs, ys, shp)"
    by (auto split: sum.splits)
  have "case data_load example_env [1 / 64] [1 / 10] True False of
          Inl e \<Rightarrow> False | Inr r \<Rightarrow> True"
    by code_simp
  then obtain xs' ys' shp' where
    r': "data_load example_env [1 / 64] [1 / 10] True False = Inr (xs', ys', shp')"
    by (auto split: sum.splits)
  have "\<Union> (pixels ` set xs) \<subseteq> {[0], [1]}"
    using data_load_pixel_values [OF r raw] by auto
  moreover have "\<Union> (pixels ` set xs') \<subseteq> {[0], [1 / 4], [1 / 2], [3 / 4], [1]}"
    using data_load_pixel_values [OF r' raw] by auto
  ultimately show ?thesis using r r' by blast
qed

text \<open>
  C8. The claim says that \<open>data_load\<close> returns empty arrays when no file matches. The code
  raises instead: the lists are empty, and the return statement reads \<open>shape\<close>, which is
  assigned only inside the loop over the images.
\<close>

theorem data_load_no_files:
  assumes "matched_files env alphas densities = []" and "np_permutation env [] = []"
  shows "data_load env alphas densities orientation scrambled = Inl UnboundLocalError"
  using assms by (simp add: data_load_def np_array_def take_indices_def)

theorem data_load_no_files_witness:
  "data_load example_env [] [1 / 10] True False = Inl UnboundLocalError \<and>
   data_load example_env [1 / 64] [] False True = Inl UnboundLocalError"
proof -
  have p: "np_permutation example_env [] = []" by (simp add: example_env_def)
  have a: "matched_files example_env [] [1 / 10] = []"
    and b: "matched_files example_env [1 / 64] [] = []"
    by (simp_all add: matched_files_def)
  show ?thesis
    using data_load_no_files [OF a p, of True False] data_load_no_files [OF b p, of False True]
    by simp
qed

lemma scramble_cases:
  "scramble img noise = Inl ValueError \<longleftrightarrow>
     \<not> ((nrows img = 128 \<or> nrows img = 1) \<and> (ncols img = 128 \<or> ncols img = 1))"
  "(nrows img = 128 \<or> nrows img = 1) \<and> (ncols img = 128 \<or> ncols img = 1) \<Longrightarrow>
     \<exists>b. scramble img noise = Inr b \<and> nrows b = 128 \<and> ncols b = 128"
  by (auto simp: scramble_def broadcast_to_def Let_def)

lemma binarize_shape [simp]:
  "nrows (binarize raw) = nrows raw" "ncols (binarize raw) = ncols raw"
  by (simp_all add: binarize_def map_pixels_def)

text \<open>
  C9. With \<open>orientation=False\<close> and \<open>scrambled=True\<close> the transformation of an image raises
  ValueError exactly when its shape is not broadcast-compatible with \<open>(128, 128)\<close>, that
  is, unless its number of rows is \<open>128\<close> or \<open>1\<close> and its number of columns is \<open>128\<close> or \<open>1\<close>;
  for a compatible shape it yields an image of shape \<open>(128, 128)\<close>; and \<open>data_load\<close> raises
  whenever a matched file holds an image of an incompatible shape.
\<close>

theorem scrambled_needs_128:
  "(preprocess env False True k raw = Inl ValueError \<longleftrightarrow>
      \<not> ((nrows raw = 128 \<or> nrows raw = 1) \<and> (ncols raw = 128 \<or> ncols raw = 1))) \<and>
   ((nrows raw = 128 \<or> nrows raw = 1) \<and> (ncols raw = 128 \<or> ncols raw = 1) \<longrightarrow>
      (\<exists>img. preprocess env False True k raw = Inr (img, Suc k) \<and>
             nrows img = 128 \<and> ncols img = 128)) \<and>
   (f \<in> set (matched_files env alphas densities) \<and> raw \<in> snd ` set (h5_read env f) \<and>
    \<not> ((nrows raw = 128 \<or> nrows raw = 1) \<and> (ncols raw = 128 \<or> ncols raw = 1)) \<longrightarrow>
      (\<exists>e. data_load env alphas densities False True = Inl e))"
proof (intro conjI impI)
  let ?ok = "\<lambda>raw::real ndarray2.
    (nrows raw = 128 \<or> nrows raw = 1) \<and> (ncols raw = 128 \<or> ncols raw = 1)"
  have fail: "preprocess env False True k raw = Inl ValueError" if "\<not> ?ok raw" for k raw
  proof -
    have "scramble (binarize raw) (np_randint env k) = Inl ValueError"
      using that scramble_cases(1) [of "binarize raw" "np_randint env k"] by simp
    then show ?thesis by (simp add: preprocess_def)
  qed
  have succ: "\<exists>img. preprocess env False True k raw = Inr (img, Suc k) \<and>
             nrows img = 128 \<and> ncols img = 128" if "?ok raw" for k raw
  proof -
    from that scramble_cases(2) [of "binarize raw" "np_randint env k"]
    obtain b where "scramble (binarize raw) (np_randint env k) = Inr b"
      "nrows b = 128" "ncols b = 128" by auto
    then show ?thesis by (simp add: preprocess_def)
  qed
  show "preprocess env False True k raw = Inl ValueError \<longleftrightarrow> \<not> ?ok raw"
    using fail [of raw k] succ [of raw k] by auto
  show "\<exists>img. preprocess env False True k raw = Inr (img, Suc k) \<and>
             nrows img = 128 \<and> ncols img = 128" if "?ok raw"
    using succ [OF that] .
  show "\<exists>e. data_load env alphas densities False True = Inl e"
    if h: "f \<in> set (matched_files env alphas densities) \<and> raw \<in> snd ` set (h5_read env f) \<and>
        \<not> ?ok raw"
  proof (cases "data_load env alphas densities False True")
    case (Inl e)
    then show ?thesis by blast
  next
    case (Inr r)
    then obtain st where
      fo: "foldM (load_file env False True) (matched_files env alphas densities)
             \<lparr>inputs = [], outputs = [], shape = None, draws = 0\<rparr> = Inr st"
      unfolding data_load_def Let_def by (auto split: sum.splits)
    from foldM_steps [OF fo] h obtain s s' where "load_file env False True s f = Inr s'"
      by blast
    from load_file_Inr [OF this] have
      "foldM (load_image env False True (file_label env f)) (map snd (h5_read env f)) s = Inr s'"
      by simp
    from foldM_steps [OF this, of raw] h obtain t t' where
      "load_image env False True (file_label env f) t raw = Inr t'" by auto
    from load_image_Inr [OF this] obtain img2 k' where
      "preprocess env False True (draws t) raw = Inr (img2, k')" by blast
    moreover have "preprocess env False True (draws t) raw = Inl ValueError"
      using fail [of raw "draws t"] h by simp
    ultimately show ?thesis by simp
  qed
qed

theorem scrambled_needs_128_witness:
  "preprocess example_env False True 0 \<lparr>nrows = 1, ncols = 4, elems = [[0, 3, 4, 1]]\<rparr>
     = Inl ValueError \<and>
   (\<exists>img. preprocess example_env False True 0 \<lparr>nrows = 1, ncols = 1, elems = [[3]]\<rparr>
             = Inr (img, Suc 0) \<and> nrows img = 128 \<and> ncols img = 128) \<and>
   (\<exists>e. data_load example_env [1 / 64] [1 / 10] False True = Inl e)"
proof -
  let ?f = "''no_roll_data/dataset_tumble_0.016_0.1.h5''"
  let ?raw = "\<lparr>nrows = 1, ncols = 4, elems = [[0, 3, 4, 1 :: real]]\<rparr>"
  have f: "?f \<in> set (matched_files example_env [1 / 64] [1 / 10])"
    unfolding example_env_files by simp
  have raw: "?raw \<in> snd ` set (h5_read example_env ?f)"
    by (simp add: example_env_def)
  have a: "preprocess example_env False True 0 ?raw = Inl ValueError"
    using scrambled_needs_128 [of example_env 0 ?raw] by simp
  have b: "\<exists>img. preprocess example_env False True 0 \<lparr>nrows = 1, ncols = 1, elems = [[3]]\<rparr>
             = Inr (img, Suc 0) \<and> nrows img = 128 \<and> ncols img = 128"
    using scrambled_needs_128 [of example_env 0 "\<lparr>nrows = 1, ncols = 1, elems = [[3]]\<rparr>"]
    by simp
  have c: "\<exists>e. data_load example_env [1 / 64] [1 / 10] False True = Inl e"
    using scrambled_needs_128 [of example_env 0 ?raw ?f "[1 / 64]" "[1 / 10]"] f raw by simp
  show ?thesis using a b c by blast
qed

subsection \<open>Splitting\<close>

lemma slice_upto_append_from: "slice_upto xs i @ slice_from xs i = xs"
  by (simp add: slice_upto_def slice_from_def)

lemma adjust_index_neg:
  "0 < k \<Longrightarrow> k \<le> int n \<Longrightarrow> adjust_index n (- k) = n - nat k"
proof -
  assume k: "0 < k" "k \<le> int n"
  have "nat (- k + int n) = n - nat k" using k by linarith
  then show ?thesis using k by (simp add: adjust_index_def)
qed

text \<open>
  C5, as the claim states it, fails at \<open>last = 0\<close>: \<open>x[:-0]\<close> is \<open>x[:0]\<close>, the empty
  training set, and \<open>x[-0:]\<close> is the whole dataset.
\<close>

theorem split_dataset_last_zero:
  "(0::int) < int (length [1, 2, 3::nat]) \<and>
   split_dataset [1, 2, 3::nat] [10, 20, 30::nat] 0 = ([], [], [1, 2, 3], [10, 20, 30])"
  by (simp add: split_dataset_def slice_upto_def slice_from_def adjust_index_def)

text \<open>
  C5, amended. For a dataset of \<open>N\<close> paired samples and \<open>0 < k < N\<close>, \<open>split_dataset\<close> with
  \<open>last = k\<close> returns the first \<open>N - k\<close> samples as training set and the last \<open>k\<close> samples as
  validation set, and training followed by validation is the dataset.
\<close>

theorem split_dataset_sizes:
  assumes "length x = n" and "length y = n" and "0 < k" and "k < int n"
  shows "split_dataset x y k = (take (n - nat k) x, take (n - nat k) y,
                                 drop (n - nat k) x, drop (n - nat k) y) \<and>
         int (length (take (n - nat k) x)) = int n - k \<and>
         int (length (take (n - nat k) y)) = int n - k \<and>
         int (length (drop (n - nat k) x)) = k \<and>
         int (length (drop (n - nat k) y)) = k \<and>
         take (n - nat k) x @ drop (n - nat k) x = x \<and>
         take (n - nat k) y @ drop (n - nat k) y = y"
proof -
  have "adjust_index n (- k) = n - nat k"
    using assms by (simp add: adjust_index_neg)
  then show ?thesis
    using assms by (auto simp: split_dataset_def slice_upto_def slice_from_def)
qed

theorem split_dataset_sizes_witness:
  "split_dataset [1, 2, 3, 4, 5::nat] [10, 20, 30, 40, 50::nat] 2
     = ([1, 2, 3], [10, 20, 30], [4, 5], [40, 50])"
  using split_dataset_sizes [of "[1, 2, 3, 4, 5::nat]" 5 "[10, 20, 30, 40, 50::nat]" 2]
  by simp

subsection \<open>Overlap indicators\<close>

lemma mapM_Inr:
  assumes "\<forall>x \<in> set xs. \<exists>y. f x = Inr y"
  shows "\<exists>ys. mapM f xs = Inr ys \<and> length ys = length xs \<and>
              (\<forall>k < length xs. f (xs ! k) = Inr (ys ! k))"
  using assms
proof (induction xs)
  case Nil
  then show ?case by simp
next
  case (Cons x xs)
  then obtain y where y: "f x = Inr y" by auto
  from Cons obtain ys where ys: "mapM f xs = Inr ys" "length ys = length xs"
    "\<forall>k < length xs. f (xs ! k) = Inr (ys ! k)" by auto
  have "\<forall>k < length (x # xs). f ((x # xs) ! k) = Inr ((y # ys) ! k)"
  proof (intro allI impI)
    fix k assume "k < length (x # xs)"
    then show "f ((x # xs) ! k) = Inr ((y # ys) ! k)"
      using y ys(3) by (cases k) simp_all
  qed
  moreover have "mapM f (x # xs) = Inr (y # ys)" using y ys(1) by simp
  moreover have "length (y # ys) = length (x # xs)" using ys(2) by simp
  ultimately show ?case by blast
qed

lemma np_min_Min: "xs \<noteq> [] \<Longrightarrow> np_min xs = Inr (Min (set xs))"
proof (cases xs)
  case (Cons a list)
  have "Min (set (a # list)) = fold min list a" by (rule Min.set_eq_fold)
  then show ?thesis using Cons by simp
qed simp

lemma np_max_Max: "xs \<noteq> [] \<Longrightarrow> np_max xs = Inr (Max (set xs))"
proof (cases xs)
  case (Cons a list)
  have "Max (set (a # list)) = fold max list a" by (rule Max.set_eq_fold)
  then show ?thesis using Cons by simp
qed simp

lemma set_np_unique [simp]: "set (np_unique xs) = set xs"
  by (simp add: np_unique_def)

lemma overlap_of_eq:
  assumes len: "length predictions = length actual" and v: "val \<in> set actual"
  shows "overlap_of predictions actual val =
           Inr (val + accuracy \<ge> Min (set (map (\<lambda>i. predictions ! i) (np_where_eq actual val))) \<and>
                val - accuracy \<le> Max (set (map (\<lambda>i. predictions ! i) (np_where_eq actual val))))"
proof -
  let ?idx = "np_where_eq actual val"
  from v obtain i where i: "i < length actual" "actual ! i = val"
    by (auto simp: in_set_conv_nth)
  then have "i \<in> set ?idx" by (simp add: np_where_eq_def)
  then have ne: "map (\<lambda>i. predictions ! i) ?idx \<noteq> []" by auto
  have "list_all (\<lambda>i. i < length predictions) ?idx"
    using len by (simp add: np_where_eq_def list_all_iff)
  then have "take_indices predictions ?idx = Inr (map (\<lambda>i. predictions ! i) ?idx)"
    by (simp add: take_indices_def)
  then show ?thesis
    unfolding overlap_of_def using np_min_Min [OF ne] np_max_Max [OF ne] by simp
qed

text \<open>
  C6. For paired arrays of predictions and labels, the loop yields one indicator for each
  distinct label value \<open>V\<close>; the indicator is true exactly when \<open>V + 1e-3\<close> is at least the
  least and \<open>V - 1e-3\<close> at most the greatest prediction made for \<open>V\<close>; and it is true
  whenever some prediction made for \<open>V\<close> equals \<open>V\<close>.
\<close>

theorem overlap_indicator:
  assumes "length predictions = length actual"
  shows "\<exists>overlap. overlap_list predictions actual = Inr overlap \<and>
           length overlap = length (np_unique actual) \<and>
           (\<forall>k < length overlap.
              overlap ! k =
                (np_unique actual ! k + 1 / 1000
                   \<ge> Min {predictions ! i | i. i < length actual \<and> actual ! i = np_unique actual ! k} \<and>
                 np_unique actual ! k - 1 / 1000
                   \<le> Max {predictions ! i | i. i < length actual \<and> actual ! i = np_unique actual ! k})) \<and>
           (\<forall>k < length overlap.
              (\<exists>i < length actual. actual ! i = np_unique actual ! k \<and>
                                   predictions ! i = np_unique actual ! k)
              \<longrightarrow> overlap ! k)"
proof -
  let ?u = "np_unique actual"
  let ?pm = "\<lambda>v. {predictions ! i | i. i < length actual \<and> actual ! i = v}"
  have pm: "set (map (\<lambda>i. predictions ! i) (np_where_eq actual v)) = ?pm v" for v
    by (auto simp: np_where_eq_def)
  have each: "overlap_of predictions actual v =
                Inr (v + 1 / 1000 \<ge> Min (?pm v) \<and> v - 1 / 1000 \<le> Max (?pm v))"
    if "v \<in> set actual" for v
    using overlap_of_eq [OF assms that] unfolding pm accuracy_def .
  then have "\<forall>v \<in> set ?u. \<exists>b. overlap_of predictions actual v = Inr b" by simp
  from mapM_Inr [OF this] obtain overlap where
    ov: "mapM (overlap_of predictions actual) ?u = Inr overlap" "length overlap = length ?u"
      "\<forall>k < length ?u. overlap_of predictions actual (?u ! k) = Inr (overlap ! k)"
    by blast
  have val: "overlap ! k = (?u ! k + 1 / 1000 \<ge> Min (?pm (?u ! k)) \<and>
                             ?u ! k - 1 / 1000 \<le> Max (?pm (?u ! k)))"
    if "k < length overlap" for k
  proof -
    have "k < length ?u" using that ov(2) by simp
    then have "?u ! k \<in> set ?u" by (rule nth_mem)
    then have "?u ! k \<in> set actual" by simp
    from each [OF this] ov(3) that ov(2) show ?thesis by simp
  qed
  have triv: "overlap ! k"
    if "k < length overlap"
      and "\<exists>i < length actual. actual ! i = ?u ! k \<and> predictions ! i = ?u ! k" for k
  proof -
    have fin: "finite (?pm (?u ! k))" by simp
    from that(2) have "?u ! k \<in> ?pm (?u ! k)" by force
    then have "Min (?pm (?u ! k)) \<le> ?u ! k" "?u ! k \<le> Max (?pm (?u ! k))"
      using fin by (simp_all only: Min_le Max_ge)
    then show ?thesis using val [OF that(1)] by simp
  qed
  show ?thesis
    using ov(1,2) val triv unfolding overlap_list_def by blast
qed

theorem overlap_indicator_witness:
  "(\<exists>overlap. overlap_list [1, 5, 4, 7] [1, 1, 3, 3] = Inr overlap \<and>
      length overlap = 2 \<and> overlap ! 0) \<and>
   overlap_list [1, 5, 4, 7] [1, 1, 3, 3] = Inr [True, False]"
proof
  have u: "np_unique [1, 1, 3, 3] = [1, 3]" by (simp add: np_unique_def)
  have l: "length [1, 5, 4, 7 :: real] = length [1, 1, 3, 3 :: real]" by simp
  from overlap_indicator [OF l] obtain overlap where
    ov: "overlap_list [1, 5, 4, 7] [1, 1, 3, 3] = Inr overlap"
      "length overlap = length (np_unique [1, 1, 3, 3])"
    and hit: "\<forall>k < length overlap.
              (\<exists>i < length [1, 1, 3, 3 :: real]. [1, 1, 3, 3] ! i = np_unique [1, 1, 3, 3] ! k \<and>
                 [1, 5, 4, 7 :: real] ! i = np_unique [1, 1, 3, 3] ! k) \<longrightarrow> overlap ! k"
    by blast
  have len: "length overlap = 2" using ov(2) u by simp
  have "\<exists>i < length [1, 1, 3, 3 :: real]. [1, 1, 3, 3] ! i = np_unique [1, 1, 3, 3] ! 0 \<and>
          [1, 5, 4, 7 :: real] ! i = np_unique [1, 1, 3, 3] ! 0"
    unfolding u by (intro exI [of _ 0]) simp
  with hit len have "overlap ! 0" by simp
  with ov(1) len show "\<exists>overlap. overlap_list [1, 5, 4, 7] [1, 1, 3, 3] = Inr overlap \<and>
      length overlap = 2 \<and> overlap ! 0" by blast
  show "overlap_list [1, 5, 4, 7] [1, 1, 3, 3] = Inr [True, False]"
    by (simp add: overlap_list_def u overlap_of_def take_indices_def np_where_eq_def
        accuracy_def upt_rec)
qed

subsection \<open>Huber loss\<close>

text \<open>
  C7. For every pair and every positive threshold, \<open>get_huber_loss\<close> is half the squared
  error when the absolute error is below the threshold and
  \<open>clip_delta * (absolute error - clip_delta / 2)\<close> otherwise; it is \<open>0\<close> at error \<open>0\<close>; and
  at an absolute error equal to the threshold both branches have the same value.
\<close>

theorem get_huber_loss_spec:
  assumes "0 < clip_delta"
  shows "get_huber_loss y_true y_pred clip_delta =
           (if \<bar>y_true - y_pred\<bar> < clip_delta then (y_true - y_pred)\<^sup>2 / 2
            else clip_delta * (\<bar>y_true - y_pred\<bar> - clip_delta / 2)) \<and>
         get_huber_loss y y clip_delta = 0 \<and>
         (\<bar>y_true - y_pred\<bar> = clip_delta \<longrightarrow>
           squared_loss (y_true - y_pred) = linear_loss (y_true - y_pred) clip_delta)"
proof (intro conjI impI)
  show "get_huber_loss y_true y_pred clip_delta =
           (if \<bar>y_true - y_pred\<bar> < clip_delta then (y_true - y_pred)\<^sup>2 / 2
            else clip_delta * (\<bar>y_true - y_pred\<bar> - clip_delta / 2))"
    by (simp add: get_huber_loss_def squared_loss_def linear_loss_def)
  show "get_huber_loss y y clip_delta = 0"
    using assms by (simp add: get_huber_loss_def squared_loss_def)
  show "squared_loss (y_true - y_pred) = linear_loss (y_true - y_pred) clip_delta"
    if "\<bar>y_true - y_pred\<bar> = clip_delta"
  proof -
    have "(y_true - y_pred)\<^sup>2 = clip_delta\<^sup>2"
      using that by (metis power2_abs)
    then show ?thesis
      using that by (simp add: squared_loss_def linear_loss_def power2_eq_square)
  qed
qed

theorem get_huber_loss_spec_witness:
  "(0::real) < 2 \<and> get_huber_loss 3 1 2 = 2 \<and> get_huber_loss 5 5 2 = 0 \<and>
   \<bar>3 - 1\<bar> = (2::real) \<and> squared_loss (3 - 1) = linear_loss (3 - 1) 2"
proof -
  have pos: "(0::real) < 2" by simp
  show ?thesis
    using get_huber_loss_spec [OF pos, of 3 1 5] by simp
qed

end
